theory Spec2Isabelle
  imports Main "HOL-Library.Word"
begin

section \<open>Strings of the source language\<close>

text \<open>
  A string of the source is a sequence of 16-bit code units. Literals of the source
  are written \<open>js ''...''\<close>.
\<close>

type_synonym jschar = "16 word"
type_synonym jsstring = "jschar list"

definition cu :: "char \<Rightarrow> jschar" where
  "cu c = of_nat (of_char c)"

definition js :: "string \<Rightarrow> jsstring" where
  "js s = map cu s"

text \<open>The character classes of the regular expressions: \<open>\d\<close>, \<open>[A-Z]\<close>, \<open>[a-z]\<close>, \<open>\s\<close>.\<close>

definition isDigit :: "jschar \<Rightarrow> bool" where
  "isDigit c = (48 \<le> c \<and> c \<le> 57)"

definition isUpper :: "jschar \<Rightarrow> bool" where
  "isUpper c = (65 \<le> c \<and> c \<le> 90)"

definition isLower :: "jschar \<Rightarrow> bool" where
  "isLower c = (97 \<le> c \<and> c \<le> 122)"

text \<open>
  White space and line terminators, the set that both \<open>\s\<close> and \<open>trim\<close> use:
  U+0009..U+000D, U+0020, U+00A0, U+1680, U+2000..U+200A, U+2028, U+2029, U+202F,
  U+205F, U+3000, U+FEFF.
\<close>

definition isSpace :: "jschar \<Rightarrow> bool" where
  "isSpace c = ((9 \<le> c \<and> c \<le> 13) \<or> c = 32 \<or> c = 160 \<or> c = 5760
      \<or> (8192 \<le> c \<and> c \<le> 8202) \<or> c = 8232 \<or> c = 8233 \<or> c = 8239
      \<or> c = 8287 \<or> c = 12288 \<or> c = 65279)"

text \<open>A literal character, and a literal letter under the \<open>i\<close> flag.\<close>

definition lit :: "char \<Rightarrow> jschar \<Rightarrow> bool" where
  "lit a c = (c = cu a)"

definition litI :: "char \<Rightarrow> char \<Rightarrow> jschar \<Rightarrow> bool" where
  "litI lo up c = (c = cu lo \<or> c = cu up)"

section \<open>Regular expressions with backtracking\<close>

text \<open>
  The fragment of regular expressions that pdfParser.ts uses: character classes, greedy
  quantifiers on a character class (\<open>Rep m None\<close> is \<open>{m,}\<close>, \<open>Rep m (Some n)\<close> is
  \<open>{m,n}\<close>), sequence, ordered alternation and capturing groups.
\<close>

datatype re =
    Cls "jschar \<Rightarrow> bool"
  | Rep nat "nat option" "jschar \<Rightarrow> bool"
  | Seq re re
  | Alt re re
  | Grp re

text \<open>
  \<open>ms r s\<close> lists every way \<open>r\<close> matches a prefix of \<open>s\<close>, in the order in which a
  backtracking matcher tries them: the captures (in the order of the opening
  parentheses) and the rest of the input. A greedy quantifier tries the longest run
  first, an alternation its left branch first.
\<close>

fun ms :: "re \<Rightarrow> jsstring \<Rightarrow> (jsstring list \<times> jsstring) list" where
  "ms (Cls p) s = (case s of [] \<Rightarrow> [] | c # cs \<Rightarrow> if p c then [([], cs)] else [])"
| "ms (Rep m mx p) s =
     (let k = length (takeWhile p s);
          n = (case mx of None \<Rightarrow> k | Some b \<Rightarrow> min b k)
      in map (\<lambda>i. ([], drop i s)) (rev [m ..< Suc n]))"
| "ms (Seq r1 r2) s =
     concat (map (\<lambda>(c1, s1). map (\<lambda>(c2, s2). (c1 @ c2, s2)) (ms r2 s1)) (ms r1 s))"
| "ms (Alt r1 r2) s = ms r1 s @ ms r2 s"
| "ms (Grp r) s = map (\<lambda>(c, s'). (take (length s - length s') s # c, s')) (ms r s)"

text \<open>
  \<open>String.prototype.match\<close> with a regular expression without the \<open>g\<close> flag: the
  match at the leftmost start position, as the list \<open>[m[0], m[1], ...]\<close>, or \<open>None\<close>
  for \<open>null\<close>.
\<close>

fun match :: "re \<Rightarrow> jsstring \<Rightarrow> jsstring list option" where
  "match r [] = (case ms r [] of [] \<Rightarrow> None | (caps, rest) # _ \<Rightarrow> Some ([] # caps))"
| "match r (c # cs) =
     (case ms r (c # cs) of
        [] \<Rightarrow> match r cs
      | (caps, rest) # _ \<Rightarrow> Some (take (length (c # cs) - length rest) (c # cs) # caps))"

text \<open>A sequence of literal characters.\<close>

fun lits :: "string \<Rightarrow> re" where
  "lits [] = Rep 0 (Some 0) (\<lambda>_. False)"
| "lits [a] = Cls (lit a)"
| "lits (a # as) = Seq (Cls (lit a)) (lits as)"

section \<open>String operations\<close>

text \<open>\<open>s.split('\n')\<close>: the pieces between line feeds; never the empty list.\<close>

fun splitAcc :: "jsstring \<Rightarrow> jsstring \<Rightarrow> jsstring list" where
  "splitAcc cur [] = [rev cur]"
| "splitAcc cur (c # cs) =
     (if c = 10 then rev cur # splitAcc [] cs else splitAcc (c # cur) cs)"

definition splitLines :: "jsstring \<Rightarrow> jsstring list" where
  "splitLines s = splitAcc [] s"

definition trim :: "jsstring \<Rightarrow> jsstring" where
  "trim s = rev (dropWhile isSpace (rev (dropWhile isSpace s)))"

text \<open>
  \<open>parseInt\<close> on a run of decimal digits (the only arguments it gets here). The
  value is exact; the source's numbers are doubles and round above \<open>2^53\<close>.
\<close>

definition digitVal :: "jschar \<Rightarrow> nat" where
  "digitVal c = unat c - 48"

definition parseInt :: "jsstring \<Rightarrow> nat" where
  "parseInt s = foldl (\<lambda>n c. 10 * n + digitVal c) 0 s"

section \<open>The data of pdfParser.ts\<close>

text \<open>An entry of \<open>ParsedCompetitionData['athletes']\<close>; an optional field that is absent is \<open>None\<close>.\<close>

record athlete =
  name :: jsstring
  weightClass :: jsstring
  placement :: "nat option"
  wins :: "nat option"
  losses :: "nat option"
  pins :: "nat option"
  takedowns :: "nat option"

record ParsedCompetitionData =
  athletes :: "athlete list"
  competitionName :: jsstring
  date :: jsstring
  results :: "jsstring list"

text \<open>
  What can be thrown: the failure of \<open>fs.readFileSync\<close> or of \<open>pdf\<close> (with its message),
  a \<open>TypeError\<close> for a method call on \<open>undefined\<close>, and the \<open>Error\<close> that the
  \<open>catch\<close> block of \<open>parsePDF\<close> throws.
\<close>

datatype error = ReadError jsstring | TypeError | Failed jsstring

fun message :: "error \<Rightarrow> jsstring" where
  "message (ReadError m) = m"
| "message TypeError =
     js ''Cannot read properties of undefined (reading '' @ [39] @ js ''match'' @ [39] @ js '')''"
| "message (Failed m) = m"

text \<open>\<open>xs[i]\<close>: \<open>None\<close> is \<open>undefined\<close>.\<close>

definition at :: "'a list \<Rightarrow> nat \<Rightarrow> 'a option" where
  "at xs i = (if i < length xs then Some (xs ! i) else None)"

section \<open>The regular expressions of parsePDF\<close>

text \<open>\<^verbatim>\<open>/\d{1,2}\/\d{1,2}\/\d{2,4}|\d{1,2}-\d{1,2}-\d{2,4}/\<close>\<close>

definition dateRe :: re where
  "dateRe =
     Alt (Seq (Rep 1 (Some 2) isDigit) (Seq (Cls (lit CHR ''/''))
           (Seq (Rep 1 (Some 2) isDigit) (Seq (Cls (lit CHR ''/'')) (Rep 2 (Some 4) isDigit)))))
         (Seq (Rep 1 (Some 2) isDigit) (Seq (Cls (lit CHR ''-''))
           (Seq (Rep 1 (Some 2) isDigit) (Seq (Cls (lit CHR ''-'')) (Rep 2 (Some 4) isDigit)))))"

text \<open>\<^verbatim>\<open>/(\d{2,3})\s*lbs?/i\<close>\<close>

definition weightRe :: re where
  "weightRe =
     Seq (Grp (Rep 2 (Some 3) isDigit)) (Seq (Rep 0 None isSpace)
       (Seq (Cls (litI CHR ''l'' CHR ''L'')) (Seq (Cls (litI CHR ''b'' CHR ''B''))
         (Rep 0 (Some 1) (litI CHR ''s'' CHR ''S'')))))"

text \<open>\<^verbatim>\<open>/([A-Z][a-z]+\s+[A-Z][a-z]+)/\<close>\<close>

definition nameRe :: re where
  "nameRe =
     Grp (Seq (Cls isUpper) (Seq (Rep 1 None isLower) (Seq (Rep 1 None isSpace)
       (Seq (Cls isUpper) (Rep 1 None isLower)))))"

text \<open>\<^verbatim>\<open>/(\d+)(st|nd|rd|th)/\<close>\<close>

definition placementRe :: re where
  "placementRe =
     Seq (Grp (Rep 1 None isDigit))
       (Grp (Alt (lits ''st'') (Alt (lits ''nd'') (Alt (lits ''rd'') (lits ''th'')))))"

text \<open>\<^verbatim>\<open>/(\d+)-(\d+)/\<close>\<close>

definition recordRe :: re where
  "recordRe = Seq (Grp (Rep 1 None isDigit)) (Seq (Cls (lit CHR ''-'')) (Grp (Rep 1 None isDigit)))"

text \<open>\<^verbatim>\<open>/pin|fall/i\<close>\<close>

definition pinRe :: re where
  "pinRe =
     Alt (Seq (Cls (litI CHR ''p'' CHR ''P'')) (Seq (Cls (litI CHR ''i'' CHR ''I''))
           (Cls (litI CHR ''n'' CHR ''N''))))
         (Seq (Cls (litI CHR ''f'' CHR ''F'')) (Seq (Cls (litI CHR ''a'' CHR ''A''))
           (Seq (Cls (litI CHR ''l'' CHR ''L'')) (Cls (litI CHR ''l'' CHR ''L'')))))"

text \<open>\<^verbatim>\<open>/(\d{2,3})/\<close>, the weight of the fallback parsing.\<close>

definition numberRe :: re where
  "numberRe = Grp (Rep 2 (Some 3) isDigit)"

section \<open>parsePDF\<close>

text \<open>\<^verbatim>\<open>text.split('\n').filter(line => line.trim().length > 0)\<close>\<close>

definition textLines :: "jsstring \<Rightarrow> jsstring list" where
  "textLines text = filter (\<lambda>line. length (trim line) > 0) (splitLines text)"

text \<open>The loop over \<open>lines.slice(0, 10)\<close> that looks for a date; \<open>''\<close> when none is found.\<close>

fun findDate :: "jsstring list \<Rightarrow> jsstring" where
  "findDate [] = []"
| "findDate (line # rest) =
     (case match dateRe line of
        Some dateMatch \<Rightarrow> dateMatch ! 0
      | None \<Rightarrow> findDate rest)"

text \<open>The record built from a result line, when the line has a name.\<close>

definition athleteData :: "jsstring \<Rightarrow> jsstring \<Rightarrow> athlete option" where
  "athleteData wc resultLine =
     (let nameMatch = match nameRe resultLine;
          placementMatch = match placementRe resultLine;
          recordMatch = match recordRe resultLine;
          pinMatch = match pinRe resultLine
      in case nameMatch of
           None \<Rightarrow> None
         | Some nm \<Rightarrow> Some \<lparr>
             name = nm ! 1,
             weightClass = wc,
             placement = (case placementMatch of Some pm \<Rightarrow> Some (parseInt (pm ! 1)) | None \<Rightarrow> None),
             wins = (case recordMatch of Some rm \<Rightarrow> Some (parseInt (rm ! 1)) | None \<Rightarrow> None),
             losses = (case recordMatch of Some rm \<Rightarrow> Some (parseInt (rm ! 2)) | None \<Rightarrow> None),
             pins = Some (if pinMatch \<noteq> None then 1 else 0),
             takedowns = Some 0 \<rparr>)"

text \<open>"Avoid duplicates": push unless an entry with this name and weight class exists.\<close>

definition pushUnique :: "athlete \<Rightarrow> athlete list \<Rightarrow> athlete list" where
  "pushUnique d as =
     (case find (\<lambda>a. name a = name d \<and> weightClass a = weightClass d) as of
        None \<Rightarrow> as @ [d]
      | Some existing \<Rightarrow> as)"

text \<open>The body of the inner loop, from \<open>resultLine\<close> on.\<close>

definition scanLine :: "jsstring \<Rightarrow> athlete list \<Rightarrow> jsstring \<Rightarrow> athlete list" where
  "scanLine wc as resultLine =
     (case athleteData wc resultLine of None \<Rightarrow> as | Some d \<Rightarrow> pushUnique d as)"

text \<open>The inner loop, over the indices \<open>j\<close>.\<close>

fun scanWindow :: "jsstring list \<Rightarrow> jsstring \<Rightarrow> nat list \<Rightarrow> athlete list \<Rightarrow> error + athlete list" where
  "scanWindow lines wc [] as = Inr as"
| "scanWindow lines wc (j # rest) as =
     (case at lines j of
        None \<Rightarrow> Inl TypeError
      | Some resultLine \<Rightarrow> scanWindow lines wc rest (scanLine wc as resultLine))"

text \<open>The indices of the inner loop: \<^verbatim>\<open>for (let j = i + 1; j < Math.min(i + 10, lines.length); j++)\<close>\<close>

definition window :: "jsstring list \<Rightarrow> nat \<Rightarrow> nat list" where
  "window lines i = [i + 1 ..< min (i + 10) (length lines)]"

text \<open>The body of the outer loop at index \<open>i\<close>.\<close>

definition scanAt :: "jsstring list \<Rightarrow> nat \<Rightarrow> athlete list \<Rightarrow> error + athlete list" where
  "scanAt lines i as =
     (case at lines i of
        None \<Rightarrow> Inl TypeError
      | Some line \<Rightarrow>
          (case match weightRe line of
             None \<Rightarrow> Inr as
           | Some weightMatch \<Rightarrow>
               scanWindow lines (weightMatch ! 1 @ js '' lbs'') (window lines i) as))"

fun scanLines :: "jsstring list \<Rightarrow> nat list \<Rightarrow> athlete list \<Rightarrow> error + athlete list" where
  "scanLines lines [] as = Inr as"
| "scanLines lines (i # rest) as =
     (case scanAt lines i as of
        Inl e \<Rightarrow> Inl e
      | Inr as' \<Rightarrow> scanLines lines rest as')"

text \<open>\<^verbatim>\<open>for (let i = 0; i < lines.length; i++)\<close>, from the empty list of athletes.\<close>

definition primaryPass :: "jsstring list \<Rightarrow> error + athlete list" where
  "primaryPass lines = scanLines lines [0 ..< length lines] []"

text \<open>The loop of the "alternative parsing".\<close>

fun fallbackPass :: "jsstring list \<Rightarrow> athlete list \<Rightarrow> athlete list" where
  "fallbackPass [] as = as"
| "fallbackPass (line # rest) as =
     (case (match nameRe line, match numberRe line) of
        (Some nameMatch, Some weightMatch) \<Rightarrow>
          fallbackPass rest (as @ [\<lparr> name = nameMatch ! 1,
            weightClass = weightMatch ! 1 @ js '' lbs'',
            placement = None, wins = None, losses = None, pins = None, takedowns = None \<rparr>])
      | _ \<Rightarrow> fallbackPass rest as)"

text \<open>
  The body of \<open>parsePDF\<close> from the text on, the \<open>extract\<close> of the specification.
  \<open>now\<close> is what \<open>new Date().toISOString()\<close> returns at the time of the call;
  \<open>.split('T')[0]\<close> is its part before the first \<open>T\<close>.
\<close>

definition extract_text :: "jsstring \<Rightarrow> jsstring \<Rightarrow> error + ParsedCompetitionData" where
  "extract_text now text =
     (let lines = textLines text;
          cn = (case lines of [] \<Rightarrow> [] | l # _ \<Rightarrow> trim l);
          dt = findDate (take 10 lines)
      in case primaryPass lines of
           Inl e \<Rightarrow> Inl e
         | Inr as \<Rightarrow> Inr \<lparr>
             athletes = (if length as = 0 then fallbackPass lines as else as),
             competitionName = (if cn = [] then js ''Wrestling Competition'' else cn),
             date = (if dt = [] then takeWhile (\<lambda>c. c \<noteq> cu CHR ''T'') now else dt),
             results = lines \<rparr>)"

text \<open>
  \<open>parsePDF\<close>: \<open>doc\<close> is the outcome of \<open>fs.readFileSync\<close> and \<open>pdf\<close>, the text of the
  document or what they threw. Whatever is thrown inside \<open>try\<close> is thrown again as
  \<open>Error("Failed to parse PDF file: " + message)\<close>.
\<close>

definition parsePDF :: "error + jsstring \<Rightarrow> jsstring \<Rightarrow> error + ParsedCompetitionData" where
  "parsePDF doc now =
     (case (case doc of Inl e \<Rightarrow> Inl e | Inr text \<Rightarrow> extract_text now text) of
        Inl e \<Rightarrow> Inl (Failed (js ''Failed to parse PDF file: '' @ message e))
      | Inr r \<Rightarrow> Inr r)"

section \<open>What the regular expressions mean\<close>

text \<open>
  The set of strings that an expression matches, the number of its capturing groups,
  and whether both branches of each alternation have the same number of groups.
\<close>

fun lang :: "re \<Rightarrow> jsstring set" where
  "lang (Cls p) = {[c] | c. p c}"
| "lang (Rep m mx p) =
     {w. list_all p w \<and> m \<le> length w \<and> (case mx of None \<Rightarrow> True | Some b \<Rightarrow> length w \<le> b)}"
| "lang (Seq r1 r2) = {u @ v | u v. u \<in> lang r1 \<and> v \<in> lang r2}"
| "lang (Alt r1 r2) = lang r1 \<union> lang r2"
| "lang (Grp r) = lang r"

fun ngroups :: "re \<Rightarrow> nat" where
  "ngroups (Cls p) = 0"
| "ngroups (Rep m mx p) = 0"
| "ngroups (Seq r1 r2) = ngroups r1 + ngroups r2"
| "ngroups (Alt r1 r2) = ngroups r1"
| "ngroups (Grp r) = Suc (ngroups r)"

fun balanced :: "re \<Rightarrow> bool" where
  "balanced (Cls p) = True"
| "balanced (Rep m mx p) = True"
| "balanced (Seq r1 r2) = (balanced r1 \<and> balanced r2)"
| "balanced (Alt r1 r2) = (balanced r1 \<and> balanced r2 \<and> ngroups r1 = ngroups r2)"
| "balanced (Grp r) = balanced r"


section \<open>The properties, stated\<close>

text \<open>What de-duplication compares: the name and the weight class.\<close>

definition key :: "athlete \<Rightarrow> jsstring \<times> jsstring" where
  "key a = (name a, weightClass a)"

text \<open>
  A name of two words: an upper-case letter and one or more lower-case letters, white
  space, and again an upper-case letter and one or more lower-case letters.
\<close>

definition twoWordName :: "jsstring \<Rightarrow> bool" where
  "twoWordName n = (\<exists>u1 l1 ws u2 l2. n = u1 # l1 @ ws @ u2 # l2 \<and>
     isUpper u1 \<and> l1 \<noteq> [] \<and> list_all isLower l1 \<and> ws \<noteq> [] \<and> list_all isSpace ws \<and>
     isUpper u2 \<and> l2 \<noteq> [] \<and> list_all isLower l2)"

text \<open>
  A numeric date: one or two digits, a separator, one or two digits, the same separator
  (a slash or a dash), two to four digits.
\<close>

definition numericDate :: "jsstring \<Rightarrow> bool" where
  "numericDate w = (\<exists>a b c sep. w = a @ sep # b @ sep # c \<and>
     (sep = cu CHR ''/'' \<or> sep = cu CHR ''-'') \<and>
     list_all isDigit a \<and> 1 \<le> length a \<and> length a \<le> 2 \<and>
     list_all isDigit b \<and> 1 \<le> length b \<and> length b \<le> 2 \<and>
     list_all isDigit c \<and> 2 \<le> length c \<and> length c \<le> 4)"

definition containsDate :: "jsstring \<Rightarrow> bool" where
  "containsDate l = (\<exists>pre w post. l = pre @ w @ post \<and> numericDate w)"

text \<open>
  A weight marker as the code reads it: two digits, any white space, and \<open>lb\<close> in
  either case.
\<close>

definition weightMarker :: "jsstring \<Rightarrow> bool" where
  "weightMarker l = (\<exists>pre d1 d2 ws c1 c2 post. l = pre @ d1 # d2 # ws @ c1 # c2 # post \<and>
     isDigit d1 \<and> isDigit d2 \<and> list_all isSpace ws \<and>
     litI CHR ''l'' CHR ''L'' c1 \<and> litI CHR ''b'' CHR ''B'' c2)"

text \<open>
  A weight marker as the specification words it: a number of one to three digits,
  followed by an optional \<open>lb\<close> or \<open>lbs\<close> in either case.
\<close>

definition specMarkerRe :: re where
  "specMarkerRe =
     Seq (Rep 1 (Some 3) isDigit)
       (Alt (Seq (Cls (litI CHR ''l'' CHR ''L'')) (Seq (Cls (litI CHR ''b'' CHR ''B''))
              (Rep 0 (Some 1) (litI CHR ''s'' CHR ''S''))))
            (Rep 0 (Some 0) (\<lambda>_. False)))"

text \<open>The record that the fallback pass builds: a name and a weight class only.\<close>

definition minimal :: "athlete \<Rightarrow> bool" where
  "minimal a = (placement a = None \<and> wins a = None \<and> losses a = None \<and> pins a = None \<and>
     takedowns a = None)"

text \<open>
  A record of the primary pass has its pins and takedowns set; a record of the fallback
  pass is minimal. Both have a name of two words.
\<close>

definition primaryShape :: "athlete \<Rightarrow> bool" where
  "primaryShape a = (twoWordName (name a) \<and> takedowns a = Some 0 \<and> pins a \<noteq> None)"

definition fallbackShape :: "athlete \<Rightarrow> bool" where
  "fallbackShape a = (twoWordName (name a) \<and> minimal a)"

text \<open>The date part of an ISO date and time \<open>YYYY-MM-DDTHH:mm:ss.sssZ\<close>.\<close>

definition isoDate :: "jsstring \<Rightarrow> bool" where
  "isoDate d = (\<exists>y m dd. d = y @ cu CHR ''-'' # m @ cu CHR ''-'' # dd \<and>
     list_all isDigit y \<and> length y = 4 \<and> list_all isDigit m \<and> length m = 2 \<and>
     list_all isDigit dd \<and> length dd = 2)"

section \<open>Example inputs\<close>

definition exampleNow :: jsstring where
  "exampleNow = js ''2024-03-14T09:30:00.000Z''"

definition laterNow :: jsstring where
  "laterNow = js ''2024-03-15T09:30:00.000Z''"

definition dualsText :: jsstring where
  "dualsText = js ''Regional Duals'' @ [10] @ js ''152 lbs'' @ [10, 10] @ js ''John Smith 5-2 1st pin''"

definition dualsAthlete :: athlete where
  "dualsAthlete = \<lparr> name = js ''John Smith'', weightClass = js ''152 lbs'', placement = Some 1,
     wins = Some 5, losses = Some 2, pins = Some 1, takedowns = Some 0 \<rparr>"

definition dualsResult :: ParsedCompetitionData where
  "dualsResult = \<lparr> athletes = [dualsAthlete], competitionName = js ''Regional Duals'',
     date = js ''2024-03-14'',
     results = [js ''Regional Duals'', js ''152 lbs'', js ''John Smith 5-2 1st pin''] \<rparr>"

definition sheetText :: jsstring where
  "sheetText = js ''Tournament Sheet'' @ [10] @ js ''John Smith 152'' @ [10]"

definition sheetAthlete :: athlete where
  "sheetAthlete = \<lparr> name = js ''John Smith'', weightClass = js ''152 lbs'', placement = None,
     wins = None, losses = None, pins = None, takedowns = None \<rparr>"

definition sheetResult :: ParsedCompetitionData where
  "sheetResult = \<lparr> athletes = [sheetAthlete], competitionName = js ''Tournament Sheet'',
     date = js ''2024-03-14'', results = [js ''Tournament Sheet'', js ''John Smith 152''] \<rparr>"

definition twiceText :: jsstring where
  "twiceText = js ''Roster'' @ [10] @ js ''John Smith 152'' @ [10] @ js ''John Smith 152''"

definition twiceResult :: ParsedCompetitionData where
  "twiceResult = \<lparr> athletes = [sheetAthlete, sheetAthlete], competitionName = js ''Roster'',
     date = js ''2024-03-14'',
     results = [js ''Roster'', js ''John Smith 152'', js ''John Smith 152''] \<rparr>"

definition headerText :: jsstring where
  "headerText = js ''Just some unrelated header text''"

definition headerResult :: ParsedCompetitionData where
  "headerResult = \<lparr> athletes = [], competitionName = js ''Just some unrelated header text'',
     date = js ''2024-03-14'', results = [js ''Just some unrelated header text''] \<rparr>"

definition datedText :: jsstring where
  "datedText = js ''Regional Duals 3/14/2024''"

definition datedResult :: ParsedCompetitionData where
  "datedResult = \<lparr> athletes = [\<lparr> name = js ''Regional Duals'', weightClass = js ''14 lbs'',
       placement = None, wins = None, losses = None, pins = None, takedowns = None \<rparr>],
     competitionName = js ''Regional Duals 3/14/2024'', date = js ''3/14/2024'',
     results = [js ''Regional Duals 3/14/2024''] \<rparr>"

definition nearLines :: "jsstring list" where
  "nearLines = js ''152 lbs'' # replicate 8 (js ''-'') @ [js ''John Smith'']"

definition farLines :: "jsstring list" where
  "farLines = js ''152 lbs'' # replicate 9 (js ''-'') @ [js ''John Smith'']"

definition plainAthlete :: athlete where
  "plainAthlete = \<lparr> name = js ''John Smith'', weightClass = js ''152 lbs'', placement = None,
     wins = None, losses = None, pins = Some 0, takedowns = Some 0 \<rparr>"

section \<open>The matcher and the language of an expression\<close>

lemma takeWhile_take_all:
  "i \<le> length (takeWhile p s) \<Longrightarrow> list_all p (take i s)"
proof -
  assume "i \<le> length (takeWhile p s)"
  then have "take i s = take i (takeWhile p s)"
    by (metis append_eq_conv_conj takeWhile_dropWhile_id take_append take_all_iff
        diff_is_0_eq' take_0 append_Nil2 min.absorb2 take_take min.commute)
  moreover have "list_all p (takeWhile p s)"
    by (simp add: list_all_iff) (meson set_takeWhileD)
  ultimately show ?thesis
    by (metis list_all_iff in_set_takeD)
qed

lemma all_prefix_takeWhile:
  "list_all p w \<Longrightarrow> length w \<le> length (takeWhile p (w @ rest))"
  by (induction w) auto

lemma ms_Rep_set:
  "set (ms (Rep m mx p) s) =
     (\<lambda>i. ([], drop i s)) ` {i. m \<le> i \<and> i \<le> length (takeWhile p s) \<and>
        (case mx of None \<Rightarrow> True | Some b \<Rightarrow> i \<le> b)}"
  by (cases mx) (auto simp: Let_def image_iff)

lemma ms_sound:
  "(c, rest) \<in> set (ms r s) \<Longrightarrow> \<exists>w. s = w @ rest \<and> w \<in> lang r"
proof (induction r arbitrary: s c rest)
  case (Cls p)
  then show ?case by (auto split: list.splits if_splits)
next
  case (Rep m mx p)
  then obtain i where i: "m \<le> i" "rest = drop i s"
    "i \<le> length (takeWhile p s)" "case mx of None \<Rightarrow> True | Some b \<Rightarrow> i \<le> b"
    unfolding ms_Rep_set by auto
  have len: "i \<le> length s"
    using i(3) length_takeWhile_le [of p s] by linarith
  have "s = take i s @ rest" using i(2) by simp
  moreover have "take i s \<in> lang (Rep m mx p)"
    using i len takeWhile_take_all [OF i(3)] by (auto split: option.splits)
  ultimately show ?case by blast
next
  case (Seq r1 r2)
  then obtain c1 s1 c2 where a: "(c1, s1) \<in> set (ms r1 s)" and b: "(c2, rest) \<in> set (ms r2 s1)"
    by auto
  from Seq.IH(1) [OF a] obtain u where u: "s = u @ s1" "u \<in> lang r1" by blast
  from Seq.IH(2) [OF b] obtain v where v: "s1 = v @ rest" "v \<in> lang r2" by blast
  have "s = (u @ v) @ rest" using u v by simp
  moreover have "u @ v \<in> lang (Seq r1 r2)" using u v by auto
  ultimately show ?case by blast
next
  case (Alt r1 r2)
  from Alt.prems have "(c, rest) \<in> set (ms r1 s) \<or> (c, rest) \<in> set (ms r2 s)" by simp
  then show ?case
    using Alt.IH(1) [of c rest s] Alt.IH(2) [of c rest s] by auto
next
  case (Grp r)
  from Grp.prems obtain c' where "(c', rest) \<in> set (ms r s)" by auto
  from Grp.IH [OF this] show ?case by simp
qed

lemma ms_complete:
  "w \<in> lang r \<Longrightarrow> \<exists>c. (c, rest) \<in> set (ms r (w @ rest))"
proof (induction r arbitrary: w rest)
  case (Cls p)
  then show ?case by auto
next
  case (Rep m mx p)
  then have w: "list_all p w" "m \<le> length w" "case mx of None \<Rightarrow> True | Some b \<Rightarrow> length w \<le> b"
    by auto
  have k: "length w \<le> length (takeWhile p (w @ rest))"
    using w(1) by (rule all_prefix_takeWhile)
  have "([], drop (length w) (w @ rest)) \<in> set (ms (Rep m mx p) (w @ rest))"
    unfolding ms_Rep_set using w(2,3) k by blast
  then show ?case by auto
next
  case (Seq r1 r2)
  then obtain u v where uv: "w = u @ v" "u \<in> lang r1" "v \<in> lang r2" by auto
  from Seq.IH(1) [OF uv(2), of "v @ rest"] obtain c1 where c1: "(c1, v @ rest) \<in> set (ms r1 (u @ v @ rest))" by blast
  from Seq.IH(2) [OF uv(3), of rest] obtain c2 where c2: "(c2, rest) \<in> set (ms r2 (v @ rest))" by blast
  have "(c1 @ c2, rest) \<in> set (ms (Seq r1 r2) (w @ rest))"
    using c1 c2 uv(1) by force
  then show ?case by blast
next
  case (Alt r1 r2)
  from Alt.prems have "w \<in> lang r1 \<or> w \<in> lang r2" by simp
  then show ?case
    using Alt.IH(1) [of w rest] Alt.IH(2) [of w rest] by auto
next
  case (Grp r)
  then obtain c where "(c, rest) \<in> set (ms r (w @ rest))" by auto
  then show ?case by force
qed

lemma ms_ngroups:
  "balanced r \<Longrightarrow> (c, rest) \<in> set (ms r s) \<Longrightarrow> length c = ngroups r"
proof (induction r arbitrary: s c rest)
  case (Seq r1 r2)
  then show ?case by fastforce
qed (auto split: list.splits if_splits simp: Let_def)


lemma match_SomeD:
  "match r s = Some m \<Longrightarrow>
     \<exists>i caps rest more. i \<le> length s \<and> ms r (drop i s) = (caps, rest) # more \<and>
       (\<forall>j<i. ms r (drop j s) = []) \<and>
       m = take (length (drop i s) - length rest) (drop i s) # caps"
proof (induction s)
  case Nil
  then obtain caps rest more where "ms r [] = (caps, rest) # more" "m = [] # caps"
    by (auto split: list.splits)
  then show ?case by auto
next
  case (Cons c cs)
  show ?case
  proof (cases "ms r (c # cs)")
    case Nil
    with Cons.prems have "match r cs = Some m" by simp
    from Cons.IH [OF this] obtain i caps rest more where i: "i \<le> length cs"
      "ms r (drop i cs) = (caps, rest) # more" "\<forall>j<i. ms r (drop j cs) = []"
      "m = take (length (drop i cs) - length rest) (drop i cs) # caps" by blast
    have "\<forall>j<Suc i. ms r (drop j (c # cs)) = []"
    proof (intro allI impI)
      fix j assume "j < Suc i"
      then show "ms r (drop j (c # cs)) = []"
        using Nil i(3) by (cases j) auto
    qed
    with i show ?thesis
      by (intro exI [of _ "Suc i"] exI [of _ caps] exI [of _ rest] exI [of _ more]) simp
  next
    case (Cons a more)
    obtain caps rest where a: "a = (caps, rest)" by (cases a)
    with Cons Cons.prems have "m = take (length (c # cs) - length rest) (c # cs) # caps"
      by simp
    with Cons a show ?thesis
      by (intro exI [of _ 0] exI [of _ caps] exI [of _ rest] exI [of _ more]) simp
  qed
qed

lemma match_NoneD:
  "match r s = None \<Longrightarrow> i \<le> length s \<Longrightarrow> ms r (drop i s) = []"
proof (induction s arbitrary: i)
  case Nil
  then show ?case by (auto split: list.splits)
next
  case (Cons c cs)
  from Cons.prems(1) have a: "ms r (c # cs) = []" and b: "match r cs = None"
    by (auto split: list.splits)
  show ?case
  proof (cases i)
    case 0
    with a show ?thesis by simp
  next
    case (Suc j)
    with Cons.prems(2) Cons.IH [OF b, of j] show ?thesis by simp
  qed
qed

text \<open>What \<open>match\<close> returns, in terms of the language of the expression.\<close>

lemma match_Some_lang:
  assumes "match r s = Some m"
  shows "\<exists>pre w post caps. s = pre @ w @ post \<and> w \<in> lang r \<and> m = w # caps \<and>
           (\<forall>pre' w' post'. s = pre' @ w' @ post' \<longrightarrow> w' \<in> lang r \<longrightarrow> length pre \<le> length pre')"
proof -
  from match_SomeD [OF assms] obtain i caps rest more where i: "i \<le> length s"
    "ms r (drop i s) = (caps, rest) # more" "\<forall>j<i. ms r (drop j s) = []"
    "m = take (length (drop i s) - length rest) (drop i s) # caps" by blast
  have "(caps, rest) \<in> set (ms r (drop i s))" using i(2) by simp
  from ms_sound [OF this] obtain w where w: "drop i s = w @ rest" "w \<in> lang r" by blast
  have m: "m = w # caps" using i(4) w(1) by simp
  have s: "s = take i s @ w @ rest" using w(1) by (metis append_take_drop_id)
  have left: "length (take i s) \<le> length pre'" if "s = pre' @ w' @ post'" "w' \<in> lang r" for pre' w' post'
  proof (rule ccontr)
    assume "\<not> length (take i s) \<le> length pre'"
    then have lt: "length pre' < i" using i(1) by simp
    from ms_complete [OF that(2), of post'] obtain c where "(c, post') \<in> set (ms r (w' @ post'))"
      by blast
    moreover have "drop (length pre') s = w' @ post'" using that(1) by simp
    ultimately show False using i(3) lt by (metis empty_iff list.set(1))
  qed
  show ?thesis
    using s w(2) m left by blast
qed

lemma match_None_lang:
  "match r s = None \<longleftrightarrow> \<not> (\<exists>pre w post. s = pre @ w @ post \<and> w \<in> lang r)"
proof
  assume n: "match r s = None"
  show "\<not> (\<exists>pre w post. s = pre @ w @ post \<and> w \<in> lang r)"
  proof
    assume "\<exists>pre w post. s = pre @ w @ post \<and> w \<in> lang r"
    then obtain pre w post where s: "s = pre @ w @ post" and w: "w \<in> lang r" by blast
    from ms_complete [OF w, of post] obtain c where "(c, post) \<in> set (ms r (w @ post))" by blast
    moreover have "ms r (drop (length pre) s) = []"
      by (rule match_NoneD [OF n]) (simp add: s)
    ultimately show False by (simp add: s)
  qed
next
  assume a: "\<not> (\<exists>pre w post. s = pre @ w @ post \<and> w \<in> lang r)"
  show "match r s = None"
  proof (rule ccontr)
    assume "match r s \<noteq> None"
    then obtain m where "match r s = Some m" by auto
    from match_Some_lang [OF this] a show False by blast
  qed
qed

lemma match_length:
  assumes "match r s = Some m" "balanced r"
  shows "length m = Suc (ngroups r)"
proof -
  from match_SomeD [OF assms(1)] obtain i caps rest more where i:
    "ms r (drop i s) = (caps, rest) # more" "m = take (length (drop i s) - length rest) (drop i s) # caps"
    by blast
  have "(caps, rest) \<in> set (ms r (drop i s))" using i(1) by simp
  from ms_ngroups [OF assms(2) this] show ?thesis using i(2) by simp
qed

lemma match_Grp:
  assumes "match (Grp r) s = Some m"
  shows "\<exists>w caps. m = w # w # caps"
proof -
  from match_SomeD [OF assms] obtain i caps rest more where i:
    "ms (Grp r) (drop i s) = (caps, rest) # more" "m = take (length (drop i s) - length rest) (drop i s) # caps"
    by blast
  then have "(caps, rest) \<in> set (ms (Grp r) (drop i s))" by simp
  then obtain c where "caps = take (length (drop i s) - length rest) (drop i s) # c"
    by auto
  with i(2) show ?thesis by blast
qed

text \<open>
  The reads \<open>m[1]\<close> and \<open>m[2]\<close> of parsePDF are in range: a match of each expression
  has one entry for the whole match and one for each group.
\<close>

lemma match_lengths:
  "match dateRe l = Some m \<Longrightarrow> length m = 1"
  "match weightRe l = Some m \<Longrightarrow> length m = 2"
  "match nameRe l = Some m \<Longrightarrow> length m = 2"
  "match placementRe l = Some m \<Longrightarrow> length m = 3"
  "match recordRe l = Some m \<Longrightarrow> length m = 3"
  "match pinRe l = Some m \<Longrightarrow> length m = 1"
  "match numberRe l = Some m \<Longrightarrow> length m = 2"
  by (drule match_length;
      simp add: dateRe_def weightRe_def nameRe_def placementRe_def recordRe_def pinRe_def
        numberRe_def)+

section \<open>The date expression\<close>

lemma lang_Seq_iff: "w \<in> lang (Seq r1 r2) \<longleftrightarrow> (\<exists>u v. w = u @ v \<and> u \<in> lang r1 \<and> v \<in> lang r2)"
  by auto

lemma lang_Cls_iff: "w \<in> lang (Cls p) \<longleftrightarrow> (\<exists>c. w = [c] \<and> p c)"
  by auto

lemma lang_Rep_Some_iff:
  "w \<in> lang (Rep m (Some b) p) \<longleftrightarrow> list_all p w \<and> m \<le> length w \<and> length w \<le> b"
  by auto

lemma lang_Rep_None_iff:
  "w \<in> lang (Rep m None p) \<longleftrightarrow> list_all p w \<and> m \<le> length w"
  by auto

lemma dateWith_lang:
  "w \<in> lang (Seq (Rep 1 (Some 2) isDigit) (Seq (Cls (lit s))
           (Seq (Rep 1 (Some 2) isDigit) (Seq (Cls (lit s)) (Rep 2 (Some 4) isDigit))))) \<longleftrightarrow>
   (\<exists>a b c. w = a @ cu s # b @ cu s # c \<and>
     list_all isDigit a \<and> 1 \<le> length a \<and> length a \<le> 2 \<and>
     list_all isDigit b \<and> 1 \<le> length b \<and> length b \<le> 2 \<and>
     list_all isDigit c \<and> 2 \<le> length c \<and> length c \<le> 4)"
  (is "?l \<longleftrightarrow> ?r")
proof
  assume ?l
  then obtain a v1 where 1: "w = a @ v1" "a \<in> lang (Rep 1 (Some 2) isDigit)"
    "v1 \<in> lang (Seq (Cls (lit s))
           (Seq (Rep 1 (Some 2) isDigit) (Seq (Cls (lit s)) (Rep 2 (Some 4) isDigit))))"
    unfolding lang_Seq_iff [of w] by blast
  from 1(3) obtain s1 v2 where 2: "v1 = s1 @ v2" "s1 \<in> lang (Cls (lit s))"
    "v2 \<in> lang (Seq (Rep 1 (Some 2) isDigit) (Seq (Cls (lit s)) (Rep 2 (Some 4) isDigit)))"
    unfolding lang_Seq_iff [of v1] by blast
  from 2(3) obtain b v3 where 3: "v2 = b @ v3" "b \<in> lang (Rep 1 (Some 2) isDigit)"
    "v3 \<in> lang (Seq (Cls (lit s)) (Rep 2 (Some 4) isDigit))"
    unfolding lang_Seq_iff [of v2] by blast
  from 3(3) obtain s2 c where 4: "v3 = s2 @ c" "s2 \<in> lang (Cls (lit s))"
    "c \<in> lang (Rep 2 (Some 4) isDigit)"
    unfolding lang_Seq_iff [of v3] by blast
  have "s1 = [cu s]" "s2 = [cu s]" using 2(2) 4(2) by (auto simp: lit_def)
  then have "w = a @ cu s # b @ cu s # c" using 1(1) 2(1) 3(1) 4(1) by simp
  then show ?r
    using 1(2) 3(2) 4(3) unfolding lang_Rep_Some_iff
    by (intro exI [of _ a] exI [of _ b] exI [of _ c]) simp
next
  assume ?r
  then obtain a b c where w: "w = a @ cu s # b @ cu s # c"
    "list_all isDigit a \<and> 1 \<le> length a \<and> length a \<le> 2"
    "list_all isDigit b \<and> 1 \<le> length b \<and> length b \<le> 2"
    "list_all isDigit c \<and> 2 \<le> length c \<and> length c \<le> 4" by blast
  have sep: "[cu s] \<in> lang (Cls (lit s))" by (simp add: lit_def)
  have c: "c \<in> lang (Rep 2 (Some 4) isDigit)" using w(4) by simp
  have b: "b \<in> lang (Rep 1 (Some 2) isDigit)" using w(3) by simp
  have a: "a \<in> lang (Rep 1 (Some 2) isDigit)" using w(2) by simp
  have 4: "[cu s] @ c \<in> lang (Seq (Cls (lit s)) (Rep 2 (Some 4) isDigit))"
    unfolding lang_Seq_iff using sep c by blast
  have 3: "b @ [cu s] @ c \<in> lang (Seq (Rep 1 (Some 2) isDigit) (Seq (Cls (lit s)) (Rep 2 (Some 4) isDigit)))"
    unfolding lang_Seq_iff [of "b @ [cu s] @ c"] using b 4 by blast
  have 2: "[cu s] @ b @ [cu s] @ c \<in> lang (Seq (Cls (lit s))
           (Seq (Rep 1 (Some 2) isDigit) (Seq (Cls (lit s)) (Rep 2 (Some 4) isDigit))))"
    unfolding lang_Seq_iff [of "[cu s] @ b @ [cu s] @ c"] using sep 3 by blast
  have "a @ [cu s] @ b @ [cu s] @ c \<in> lang (Seq (Rep 1 (Some 2) isDigit) (Seq (Cls (lit s))
           (Seq (Rep 1 (Some 2) isDigit) (Seq (Cls (lit s)) (Rep 2 (Some 4) isDigit)))))"
    unfolding lang_Seq_iff [of "a @ [cu s] @ b @ [cu s] @ c"] using a 2 by blast
  then show ?l using w(1) by simp
qed


lemma dateRe_lang: "w \<in> lang dateRe \<longleftrightarrow> numericDate w"
proof -
  have "numericDate w \<longleftrightarrow>
    (\<exists>a b c. w = a @ cu CHR ''/'' # b @ cu CHR ''/'' # c \<and>
     list_all isDigit a \<and> 1 \<le> length a \<and> length a \<le> 2 \<and>
     list_all isDigit b \<and> 1 \<le> length b \<and> length b \<le> 2 \<and>
     list_all isDigit c \<and> 2 \<le> length c \<and> length c \<le> 4) \<or>
    (\<exists>a b c. w = a @ cu CHR ''-'' # b @ cu CHR ''-'' # c \<and>
     list_all isDigit a \<and> 1 \<le> length a \<and> length a \<le> 2 \<and>
     list_all isDigit b \<and> 1 \<le> length b \<and> length b \<le> 2 \<and>
     list_all isDigit c \<and> 2 \<le> length c \<and> length c \<le> 4)"
    unfolding numericDate_def by blast
  then show ?thesis
    unfolding dateRe_def lang.simps(4) Un_iff dateWith_lang by simp
qed

lemma numericDate_nonempty: "numericDate w \<Longrightarrow> w \<noteq> []"
  by (auto simp: numericDate_def)

text \<open>At one start position the date expression matches in one way but for the length of the year, longest first.\<close>

lemma map_caps_id: "map (\<lambda>(c2, s2). ([] @ c2, s2)) xs = xs"
  by (induction xs) auto

lemma ms_Cls_Seq:
  "ms (Seq (Cls q) r) s = (case s of [] \<Rightarrow> [] | c # cs \<Rightarrow> if q c then ms r cs else [])"
  by (cases s) (simp_all add: map_caps_id)

lemma concat_all_Nil: "\<forall>x\<in>set xs. f x = [] \<Longrightarrow> concat (map f xs) = []"
  by (induction xs) auto

lemma takeWhile_nth_holds: "i < length (takeWhile p s) \<Longrightarrow> p (s ! i)"
  by (metis nth_mem set_takeWhileD takeWhile_nth)

lemma ms_Cls_inside_run:
  assumes "\<And>c. q c \<Longrightarrow> \<not> p c" "i < length (takeWhile p s)"
  shows "ms (Seq (Cls q) r) (drop i s) = []"
proof -
  have "i < length s" using assms(2) length_takeWhile_le [of p s] by linarith
  then have "drop i s = s ! i # drop (Suc i) s" by (simp add: Cons_nth_drop_Suc)
  moreover have "\<not> q (s ! i)" using assms takeWhile_nth_holds by blast
  ultimately show ?thesis by (simp add: ms_Cls_Seq)
qed

lemma ms_Rep_Seq:
  "ms (Seq (Rep m (Some b) p) r2) s =
     concat (map (\<lambda>i. ms r2 (drop i s)) (rev [m ..< Suc (min b (length (takeWhile p s)))]))"
  by (simp add: Let_def comp_def map_caps_id del: upt_Suc)

lemma ms_Rep_Seq_Cls:
  assumes "\<And>c. q c \<Longrightarrow> \<not> p c"
  shows "ms (Seq (Rep m (Some b) p) (Seq (Cls q) r)) s =
     (if m \<le> length (takeWhile p s) \<and> length (takeWhile p s) \<le> b
      then ms (Seq (Cls q) r) (drop (length (takeWhile p s)) s) else [])"
proof -
  let ?k = "length (takeWhile p s)"
  let ?F = "\<lambda>i. ms (Seq (Cls q) r) (drop i s)"
  have eq: "ms (Seq (Rep m (Some b) p) (Seq (Cls q) r)) s = concat (map ?F (rev [m ..< Suc (min b ?k)]))"
    by (rule ms_Rep_Seq)
  show ?thesis
  proof (cases "m \<le> ?k \<and> ?k \<le> b")
    case True
    then have "min b ?k = ?k" by simp
    with True have "rev [m ..< Suc (min b ?k)] = ?k # rev [m ..< ?k]" by simp
    moreover have "concat (map ?F (rev [m ..< ?k])) = []"
    proof (rule concat_all_Nil, rule ballI)
      fix i assume "i \<in> set (rev [m ..< ?k])"
      then have "i < ?k" by simp
      then show "?F i = []" using assms by (intro ms_Cls_inside_run [where p = p and q = q]) auto
    qed
    ultimately show ?thesis using True eq by (simp del: ms.simps)
  next
    case False
    have "concat (map ?F (rev [m ..< Suc (min b ?k)])) = []"
    proof (rule concat_all_Nil, rule ballI)
      fix i assume "i \<in> set (rev [m ..< Suc (min b ?k)])"
      then have "m \<le> i" "i \<le> b" "i \<le> ?k" by auto
      with False have "i < ?k" by auto
      then show "?F i = []" using assms by (intro ms_Cls_inside_run [where p = p and q = q]) auto
    qed
    with False eq show ?thesis by (simp del: ms.simps)
  qed
qed


lemma ms_Rep_rests: "sorted_wrt (<) (map (\<lambda>x. length (snd x)) (ms (Rep m mx p) s))"
proof -
  define n where "n = (case mx of None \<Rightarrow> length (takeWhile p s) | Some b \<Rightarrow> min b (length (takeWhile p s)))"
  have n: "n \<le> length s"
    using length_takeWhile_le [of p s] by (auto simp: n_def split: option.splits)
  have "map (\<lambda>x. length (snd x)) (ms (Rep m mx p) s) = map (\<lambda>i. length s - i) (rev [m ..< Suc n])"
    by (simp add: Let_def n_def comp_def del: upt_Suc)
  moreover have "sorted_wrt (\<lambda>a b. length s - b < length s - a) [m ..< Suc n]"
    by (rule sorted_wrt_mono_rel [of _ "(<)"]) (use n in \<open>auto simp del: upt_Suc\<close>)
  ultimately show ?thesis
    by (simp add: sorted_wrt_map sorted_wrt_rev del: upt_Suc)
qed

lemma ms_dateWith:
  assumes "\<not> isDigit (cu sep)"
  shows "ms (Seq (Rep 1 (Some 2) isDigit) (Seq (Cls (lit sep))
           (Seq (Rep 1 (Some 2) isDigit) (Seq (Cls (lit sep)) (Rep 2 (Some 4) isDigit))))) s = [] \<or>
         (\<exists>s2 s4. drop (length (takeWhile isDigit s)) s = cu sep # s2 \<and>
            ms (Seq (Rep 1 (Some 2) isDigit) (Seq (Cls (lit sep))
              (Seq (Rep 1 (Some 2) isDigit) (Seq (Cls (lit sep)) (Rep 2 (Some 4) isDigit))))) s =
            ms (Rep 2 (Some 4) isDigit) s4)"
proof -
  have d: "\<And>c. lit sep c \<Longrightarrow> \<not> isDigit c" using assms by (simp add: lit_def)
  let ?R = "Rep 2 (Some 4) isDigit"
  let ?R1 = "Seq (Rep 1 (Some 2) isDigit) (Seq (Cls (lit sep)) ?R)"
  let ?k = "length (takeWhile isDigit s)"
  have 1: "ms (Seq (Rep 1 (Some 2) isDigit) (Seq (Cls (lit sep)) ?R1)) s =
      (if 1 \<le> ?k \<and> ?k \<le> 2 then ms (Seq (Cls (lit sep)) ?R1) (drop ?k s) else [])"
    by (rule ms_Rep_Seq_Cls [OF d])
  have 2: "ms (Seq (Cls (lit sep)) ?R1) s1 =
      (case s1 of [] \<Rightarrow> [] | c # s2 \<Rightarrow> if lit sep c then ms ?R1 s2 else [])" for s1
    by (rule ms_Cls_Seq)
  have 3: "ms ?R1 s2 =
      (if 1 \<le> length (takeWhile isDigit s2) \<and> length (takeWhile isDigit s2) \<le> 2
       then ms (Seq (Cls (lit sep)) ?R) (drop (length (takeWhile isDigit s2)) s2) else [])" for s2
    by (rule ms_Rep_Seq_Cls [OF d])
  have 4: "ms (Seq (Cls (lit sep)) ?R) s3 =
      (case s3 of [] \<Rightarrow> [] | c # s4 \<Rightarrow> if lit sep c then ms ?R s4 else [])" for s3
    by (rule ms_Cls_Seq)
  show ?thesis
    unfolding 1 2 3 4 by (auto simp: lit_def split: list.splits simp del: ms.simps)
qed

lemma sep_facts:
  "\<not> isDigit (cu CHR ''/'')" "\<not> isDigit (cu CHR ''-'')" "cu CHR ''/'' \<noteq> cu CHR ''-''"
  by (simp_all add: cu_def isDigit_def)

lemma ms_dateRe_rests: "sorted_wrt (<) (map (\<lambda>x. length (snd x)) (ms dateRe s))"
proof -
  let ?A = "Seq (Rep 1 (Some 2) isDigit) (Seq (Cls (lit CHR ''/''))
           (Seq (Rep 1 (Some 2) isDigit) (Seq (Cls (lit CHR ''/'')) (Rep 2 (Some 4) isDigit))))"
  let ?B = "Seq (Rep 1 (Some 2) isDigit) (Seq (Cls (lit CHR ''-''))
           (Seq (Rep 1 (Some 2) isDigit) (Seq (Cls (lit CHR ''-'')) (Rep 2 (Some 4) isDigit))))"
  have eq: "ms dateRe s = ms ?A s @ ms ?B s" by (simp add: dateRe_def del: ms.simps(3))
  note a = ms_dateWith [OF sep_facts(1), of s] and b = ms_dateWith [OF sep_facts(2), of s]
  have sa: "sorted_wrt (<) (map (\<lambda>x. length (snd x)) (ms ?A s))"
    using a ms_Rep_rests [of 2 "Some 4" isDigit] by (auto simp del: ms.simps)
  have sb: "sorted_wrt (<) (map (\<lambda>x. length (snd x)) (ms ?B s))"
    using b ms_Rep_rests [of 2 "Some 4" isDigit] by (auto simp del: ms.simps)
  have "ms ?A s = [] \<or> ms ?B s = []"
    using a b sep_facts(3) by (auto simp del: ms.simps)
  then show ?thesis
    unfolding eq using sa sb by (auto simp del: ms.simps)
qed

lemma ms_dateRe_first_longest:
  assumes "ms dateRe s = (c, rest) # others" "(c', rest') \<in> set (ms dateRe s)"
  shows "length rest \<le> length rest'"
proof -
  from ms_dateRe_rests [of s] assms(1)
  have "\<forall>x\<in>set others. length rest < length (snd x)" by simp
  with assms show ?thesis by auto
qed

lemma match_dateRe_Some:
  assumes "match dateRe l = Some m"
  shows "\<exists>pre post. l = pre @ m ! 0 @ post \<and> numericDate (m ! 0) \<and>
           (\<forall>pre' w' post'. l = pre' @ w' @ post' \<longrightarrow> numericDate w' \<longrightarrow>
              length pre \<le> length pre' \<and>
              (length pre' = length pre \<longrightarrow> length w' \<le> length (m ! 0)))"
proof -
  from match_SomeD [OF assms] obtain i caps rest others where i: "i \<le> length l"
    "ms dateRe (drop i l) = (caps, rest) # others" "\<forall>j<i. ms dateRe (drop j l) = []"
    "m = take (length (drop i l) - length rest) (drop i l) # caps" by blast
  have "(caps, rest) \<in> set (ms dateRe (drop i l))" using i(2) by simp
  from ms_sound [OF this] obtain w where w: "drop i l = w @ rest" "w \<in> lang dateRe" by blast
  have m: "m ! 0 = w" using i(4) w(1) by simp
  have l: "l = take i l @ w @ rest" using w(1) by (metis append_take_drop_id)
  have len: "length (take i l) = i" using i(1) by simp
  have "length (take i l) \<le> length pre' \<and> (length pre' = length (take i l) \<longrightarrow> length w' \<le> length w)"
    if that: "l = pre' @ w' @ post'" "numericDate w'" for pre' w' post'
  proof -
    from that(2) have "w' \<in> lang dateRe" by (simp add: dateRe_lang)
    from ms_complete [OF this, of post'] obtain c' where c': "(c', post') \<in> set (ms dateRe (w' @ post'))"
      by blast
    have d: "drop (length pre') l = w' @ post'" using that(1) by simp
    have left: "i \<le> length pre'"
    proof (rule ccontr)
      assume "\<not> i \<le> length pre'"
      then have "ms dateRe (drop (length pre') l) = []" using i(3) by simp
      with c' d show False by simp
    qed
    have "length w' \<le> length w" if "length pre' = i"
    proof -
      from that d have "drop i l = w' @ post'" by simp
      with c' have "(c', post') \<in> set (ms dateRe (drop i l))" by simp
      from ms_dateRe_first_longest [OF i(2) this] have "length rest \<le> length post'" .
      moreover have "length w + length rest = length w' + length post'"
        using w(1) \<open>drop i l = w' @ post'\<close> by (metis length_append)
      ultimately show ?thesis by linarith
    qed
    with left len show ?thesis by simp
  qed
  with l m w(2) show ?thesis
    unfolding dateRe_lang by blast
qed

lemma match_dateRe_None: "match dateRe l = None \<longleftrightarrow> \<not> containsDate l"
  unfolding match_None_lang containsDate_def dateRe_lang by simp

lemma findDate_none:
  "\<forall>l\<in>set ls. \<not> containsDate l \<Longrightarrow> findDate ls = []"
  by (induction ls) (simp_all add: match_dateRe_None [symmetric])

lemma findDate_first:
  "\<exists>l\<in>set ls. containsDate l \<Longrightarrow>
     \<exists>before l after m. ls = before @ l # after \<and> (\<forall>b\<in>set before. \<not> containsDate b) \<and>
        match dateRe l = Some m \<and> findDate ls = m ! 0"
proof (induction ls)
  case Nil
  then show ?case by simp
next
  case (Cons x xs)
  show ?case
  proof (cases "match dateRe x")
    case None
    then have nx: "\<not> containsDate x" by (simp add: match_dateRe_None)
    with Cons.prems have "\<exists>l\<in>set xs. containsDate l" by auto
    from Cons.IH [OF this] obtain before l after m where
      "xs = before @ l # after" "\<forall>b\<in>set before. \<not> containsDate b"
      "match dateRe l = Some m" "findDate xs = m ! 0" by blast
    then show ?thesis
      using None nx
      by (intro exI [of _ "x # before"] exI [of _ l] exI [of _ after] exI [of _ m]) simp
  next
    case (Some m)
    then show ?thesis
      by (intro exI [of _ "[]"] exI [of _ x] exI [of _ xs] exI [of _ m]) simp
  qed
qed

lemma findDate_nonempty_iff: "findDate ls \<noteq> [] \<longleftrightarrow> (\<exists>l\<in>set ls. containsDate l)"
proof
  assume "findDate ls \<noteq> []"
  then show "\<exists>l\<in>set ls. containsDate l" using findDate_none by blast
next
  assume "\<exists>l\<in>set ls. containsDate l"
  from findDate_first [OF this] obtain l m where "match dateRe l = Some m" "findDate ls = m ! 0"
    by blast
  with match_dateRe_Some [of l m] show "findDate ls \<noteq> []"
    using numericDate_nonempty by auto
qed

section \<open>The weight expression\<close>

lemma weightRe_lang:
  "w \<in> lang weightRe \<longleftrightarrow> (\<exists>d ws c1 c2 s. w = d @ ws @ c1 # c2 # s \<and>
      list_all isDigit d \<and> 2 \<le> length d \<and> length d \<le> 3 \<and> list_all isSpace ws \<and>
      litI CHR ''l'' CHR ''L'' c1 \<and> litI CHR ''b'' CHR ''B'' c2 \<and>
      list_all (litI CHR ''s'' CHR ''S'') s \<and> length s \<le> 1)"
  (is "?l \<longleftrightarrow> ?r")
proof
  assume ?l
  then obtain d v1 where 1: "w = d @ v1" "d \<in> lang (Rep 2 (Some 3) isDigit)"
    "v1 \<in> lang (Seq (Rep 0 None isSpace)
       (Seq (Cls (litI CHR ''l'' CHR ''L'')) (Seq (Cls (litI CHR ''b'' CHR ''B''))
         (Rep 0 (Some 1) (litI CHR ''s'' CHR ''S'')))))"
    unfolding weightRe_def lang_Seq_iff [of w] lang.simps(5) by blast
  from 1(3) obtain ws v2 where 2: "v1 = ws @ v2" "ws \<in> lang (Rep 0 None isSpace)"
    "v2 \<in> lang (Seq (Cls (litI CHR ''l'' CHR ''L'')) (Seq (Cls (litI CHR ''b'' CHR ''B''))
         (Rep 0 (Some 1) (litI CHR ''s'' CHR ''S''))))"
    unfolding lang_Seq_iff [of v1] by blast
  from 2(3) obtain x1 v3 where 3: "v2 = x1 @ v3" "x1 \<in> lang (Cls (litI CHR ''l'' CHR ''L''))"
    "v3 \<in> lang (Seq (Cls (litI CHR ''b'' CHR ''B'')) (Rep 0 (Some 1) (litI CHR ''s'' CHR ''S'')))"
    unfolding lang_Seq_iff [of v2] by blast
  from 3(3) obtain x2 s where 4: "v3 = x2 @ s" "x2 \<in> lang (Cls (litI CHR ''b'' CHR ''B''))"
    "s \<in> lang (Rep 0 (Some 1) (litI CHR ''s'' CHR ''S''))"
    unfolding lang_Seq_iff [of v3] by blast
  from 3(2) obtain c1 where c1: "x1 = [c1]" "litI CHR ''l'' CHR ''L'' c1" by auto
  from 4(2) obtain c2 where c2: "x2 = [c2]" "litI CHR ''b'' CHR ''B'' c2" by auto
  have "w = d @ ws @ c1 # c2 # s" using 1(1) 2(1) 3(1) 4(1) c1(1) c2(1) by simp
  then show ?r
    using 1(2) 2(2) 4(3) c1(2) c2(2) unfolding lang_Rep_Some_iff lang_Rep_None_iff
    by (intro exI [of _ d] exI [of _ ws] exI [of _ c1] exI [of _ c2] exI [of _ s]) simp
next
  assume ?r
  then obtain d ws c1 c2 s where w: "w = d @ ws @ c1 # c2 # s"
      "list_all isDigit d \<and> 2 \<le> length d \<and> length d \<le> 3" "list_all isSpace ws"
      "litI CHR ''l'' CHR ''L'' c1" "litI CHR ''b'' CHR ''B'' c2"
      "list_all (litI CHR ''s'' CHR ''S'') s \<and> length s \<le> 1" by blast
  have s: "s \<in> lang (Rep 0 (Some 1) (litI CHR ''s'' CHR ''S''))" using w(6) by simp
  have x2: "[c2] \<in> lang (Cls (litI CHR ''b'' CHR ''B''))" using w(5) by simp
  have x1: "[c1] \<in> lang (Cls (litI CHR ''l'' CHR ''L''))" using w(4) by simp
  have ws: "ws \<in> lang (Rep 0 None isSpace)" using w(3) by simp
  have d: "d \<in> lang (Grp (Rep 2 (Some 3) isDigit))" using w(2) by simp
  have 4: "[c2] @ s \<in> lang (Seq (Cls (litI CHR ''b'' CHR ''B'')) (Rep 0 (Some 1) (litI CHR ''s'' CHR ''S'')))"
    unfolding lang_Seq_iff using x2 s by blast
  have 3: "[c1] @ [c2] @ s \<in> lang (Seq (Cls (litI CHR ''l'' CHR ''L'')) (Seq (Cls (litI CHR ''b'' CHR ''B''))
         (Rep 0 (Some 1) (litI CHR ''s'' CHR ''S''))))"
    unfolding lang_Seq_iff [of "[c1] @ [c2] @ s"] using x1 4 by blast
  have 2: "ws @ [c1] @ [c2] @ s \<in> lang (Seq (Rep 0 None isSpace)
       (Seq (Cls (litI CHR ''l'' CHR ''L'')) (Seq (Cls (litI CHR ''b'' CHR ''B''))
         (Rep 0 (Some 1) (litI CHR ''s'' CHR ''S'')))))"
    unfolding lang_Seq_iff [of "ws @ [c1] @ [c2] @ s"] using ws 3 by blast
  have "d @ ws @ [c1] @ [c2] @ s \<in> lang weightRe"
    unfolding weightRe_def lang_Seq_iff [of "d @ ws @ [c1] @ [c2] @ s"] using d 2 by blast
  then show ?l using w(1) by simp
qed

lemma match_weightRe_iff: "match weightRe l \<noteq> None \<longleftrightarrow> weightMarker l"
proof
  assume "match weightRe l \<noteq> None"
  then obtain pre w post where l: "l = pre @ w @ post" and w: "w \<in> lang weightRe"
    unfolding match_None_lang by blast
  from w obtain d ws c1 c2 s where d: "w = d @ ws @ c1 # c2 # s"
      "list_all isDigit d" "2 \<le> length d" "length d \<le> 3" "list_all isSpace ws"
      "litI CHR ''l'' CHR ''L'' c1" "litI CHR ''b'' CHR ''B'' c2"
    unfolding weightRe_lang by blast
  from d(3,4) obtain d0 d1 d2 where "d = d0 @ [d1, d2]"
    by (cases d rule: rev_cases; cases "butlast d" rule: rev_cases) auto
  with d(2) have dd: "d = d0 @ [d1, d2]" "isDigit d1" "isDigit d2" by auto
  have "l = (pre @ d0) @ d1 # d2 # ws @ c1 # c2 # (s @ post)"
    using l d(1) dd(1) by simp
  then show "weightMarker l"
    unfolding weightMarker_def using dd(2,3) d(5,6,7) by blast
next
  assume "weightMarker l"
  then obtain pre d1 d2 ws c1 c2 post where l: "l = pre @ d1 # d2 # ws @ c1 # c2 # post"
     "isDigit d1" "isDigit d2" "list_all isSpace ws"
     "litI CHR ''l'' CHR ''L'' c1" "litI CHR ''b'' CHR ''B'' c2"
    unfolding weightMarker_def by blast
  have "[d1, d2] @ ws @ c1 # c2 # [] \<in> lang weightRe"
    unfolding weightRe_lang using l(2-) 
    by (intro exI [of _ "[d1, d2]"] exI [of _ ws] exI [of _ c1] exI [of _ c2] exI [of _ "[]"]) simp
  moreover have "l = pre @ ([d1, d2] @ ws @ c1 # c2 # []) @ post" using l(1) by simp
  ultimately show "match weightRe l \<noteq> None"
    unfolding match_None_lang by blast
qed

lemma ms_Seq_mem:
  "(c, rest) \<in> set (ms (Seq r1 r2) s) \<longleftrightarrow>
     (\<exists>c1 s1 c2. (c1, s1) \<in> set (ms r1 s) \<and> (c2, rest) \<in> set (ms r2 s1) \<and> c = c1 @ c2)"
  by force

lemma ms_Grp_mem:
  "(c, rest) \<in> set (ms (Grp r) s) \<longleftrightarrow>
     (\<exists>c'. (c', rest) \<in> set (ms r s) \<and> c = take (length s - length rest) s # c')"
  by force

lemma ms_Seq_Grp:
  assumes "(c, rest) \<in> set (ms (Seq (Grp r1) r2) s)"
  shows "\<exists>w c'. c = w # c' \<and> w \<in> lang r1"
proof -
  from assms obtain c1 s1 c2 where a: "(c1, s1) \<in> set (ms (Grp r1) s)" and c: "c = c1 @ c2"
    unfolding ms_Seq_mem by blast
  from a obtain c1' where b: "(c1', s1) \<in> set (ms r1 s)" "c1 = take (length s - length s1) s # c1'"
    unfolding ms_Grp_mem by blast
  from ms_sound [OF b(1)] obtain w where "s = w @ s1" "w \<in> lang r1" by blast
  with b(2) c show ?thesis by simp
qed

lemma match_weightRe_group:
  assumes "match weightRe l = Some m"
  shows "list_all isDigit (m ! 1) \<and> 2 \<le> length (m ! 1) \<and> length (m ! 1) \<le> 3"
proof -
  from match_SomeD [OF assms] obtain i caps rest more where i:
    "ms weightRe (drop i l) = (caps, rest) # more"
    "m = take (length (drop i l) - length rest) (drop i l) # caps" by blast
  have "(caps, rest) \<in> set (ms weightRe (drop i l))" using i(1) by simp
  from ms_Seq_Grp [OF this [unfolded weightRe_def]] obtain w c' where
    "caps = w # c'" "w \<in> lang (Rep 2 (Some 3) isDigit)" by blast
  with i(2) show ?thesis by simp
qed

section \<open>The loops of the primary pass\<close>

text \<open>No index is out of range, so the loops are folds over the lines.\<close>

lemma at_Some: "j < length xs \<Longrightarrow> at xs j = Some (xs ! j)"
  by (simp add: at_def)

lemma scanWindow_Inr:
  "\<forall>j\<in>set idx. j < length lines \<Longrightarrow>
     scanWindow lines wc idx as = Inr (foldl (scanLine wc) as (map ((!) lines) idx))"
  by (induction idx arbitrary: as) (simp_all add: at_Some)

lemma window_in_range: "j \<in> set (window lines i) \<Longrightarrow> j < length lines"
  by (simp add: window_def)

lemma map_nth_upt: "b \<le> length xs \<Longrightarrow> map ((!) xs) [a..<b] = take (b - a) (drop a xs)"
  by (rule nth_equalityI) auto

lemma window_lines: "map ((!) lines) (window lines i) = take 9 (drop (Suc i) lines)"
proof -
  have "map ((!) lines) [Suc i ..< min (i + 10) (length lines)] =
          take (min (i + 10) (length lines) - Suc i) (drop (Suc i) lines)"
    by (rule map_nth_upt) simp
  also have "\<dots> = take 9 (drop (Suc i) lines)"
    by (cases "i + 10 \<le> length lines") (simp_all add: min_def)
  finally show ?thesis by (simp add: window_def)
qed

lemma scanAt_Inr:
  "i < length lines \<Longrightarrow>
     scanAt lines i as = Inr (case match weightRe (lines ! i) of
         None \<Rightarrow> as
       | Some weightMatch \<Rightarrow>
           foldl (scanLine (weightMatch ! 1 @ js '' lbs'')) as (take 9 (drop (Suc i) lines)))"
  by (simp add: scanAt_def at_Some scanWindow_Inr window_in_range window_lines split: option.splits)

lemma scanLines_Inr:
  "\<forall>i\<in>set is. i < length lines \<Longrightarrow> \<exists>as'. scanLines lines is as = Inr as'"
  by (induction "is" arbitrary: as) (simp_all add: scanAt_Inr)

lemma primaryPass_Inr: "\<exists>as. primaryPass lines = Inr as"
  unfolding primaryPass_def by (rule scanLines_Inr) simp

lemma foldl_invariant:
  assumes "\<And>as l. P as \<Longrightarrow> P (f as l)" "P as"
  shows "P (foldl f as ls)"
  using assms(2) by (induction ls arbitrary: as) (simp_all add: assms(1))

lemma scanLines_invariant:
  assumes step: "\<And>wc as l. P as \<Longrightarrow> P (scanLine wc as l)"
      and "P as" "\<forall>i\<in>set is. i < length lines" "scanLines lines is as = Inr as'"
  shows "P as'"
  using assms(2-)
proof (induction "is" arbitrary: as)
  case Nil
  then show ?case by simp
next
  case (Cons i rest)
  from Cons.prems(2) have i: "i < length lines" by simp
  let ?mid = "case match weightRe (lines ! i) of
         None \<Rightarrow> as
       | Some weightMatch \<Rightarrow>
           foldl (scanLine (weightMatch ! 1 @ js '' lbs'')) as (take 9 (drop (Suc i) lines))"
  have "P ?mid"
    using Cons.prems(1) by (auto split: option.splits intro: foldl_invariant step)
  moreover have "scanLines lines rest ?mid = Inr as'"
    using Cons.prems(3) by (simp add: scanAt_Inr [OF i])
  ultimately show ?case
    using Cons.IH Cons.prems(2) by simp
qed

lemma primaryPass_invariant:
  assumes "\<And>wc as l. P as \<Longrightarrow> P (scanLine wc as l)" "P []" "primaryPass lines = Inr as"
  shows "P as"
  using scanLines_invariant [of P "[]" "[0 ..< length lines]" lines as] assms
  by (simp add: primaryPass_def)

section \<open>What the two passes keep true\<close>

lemma pushUnique_distinct:
  "distinct (map key as) \<Longrightarrow> distinct (map key (pushUnique d as))"
  by (auto simp: pushUnique_def key_def find_None_iff split: option.splits)

lemma scanLine_distinct:
  "distinct (map key as) \<Longrightarrow> distinct (map key (scanLine wc as l))"
  by (simp add: scanLine_def pushUnique_distinct split: option.splits)

lemma primaryPass_distinct:
  "primaryPass lines = Inr as \<Longrightarrow> distinct (map key as)"
  by (rule primaryPass_invariant [where P = "\<lambda>as. distinct (map key as)"])
     (simp_all add: scanLine_distinct)

lemma set_pushUnique: "set (pushUnique d as) \<subseteq> insert d (set as)"
  by (auto simp: pushUnique_def split: option.splits)

lemma nameRe_lang: "w \<in> lang nameRe \<longleftrightarrow> twoWordName w"
proof
  assume "w \<in> lang nameRe"
  then obtain u1 l1 ws u2 l2 where "w = [u1] @ l1 @ ws @ [u2] @ l2" "isUpper u1"
    "list_all isLower l1" "1 \<le> length l1" "list_all isSpace ws" "1 \<le> length ws" "isUpper u2"
    "list_all isLower l2" "1 \<le> length l2"
    unfolding nameRe_def by auto
  then show "twoWordName w"
    unfolding twoWordName_def
    by (intro exI [of _ u1] exI [of _ l1] exI [of _ ws] exI [of _ u2] exI [of _ l2]) auto
next
  assume "twoWordName w"
  then obtain u1 l1 ws u2 l2 where w: "w = u1 # l1 @ ws @ u2 # l2" "isUpper u1"
    "list_all isLower l1" "l1 \<noteq> []" "list_all isSpace ws" "ws \<noteq> []" "isUpper u2"
    "list_all isLower l2" "l2 \<noteq> []"
    unfolding twoWordName_def by blast
  have a: "l2 \<in> lang (Rep 1 None isLower)" using w by (cases l2) auto
  have b: "[u2] @ l2 \<in> lang (Seq (Cls isUpper) (Rep 1 None isLower))"
    using a w(7) unfolding lang.simps by blast
  have c: "ws \<in> lang (Rep 1 None isSpace)" using w by (cases ws) auto
  have d: "ws @ [u2] @ l2 \<in> lang (Seq (Rep 1 None isSpace) (Seq (Cls isUpper) (Rep 1 None isLower)))"
    using b c unfolding lang.simps(3) [of "Rep 1 None isSpace"] by blast
  have e: "l1 \<in> lang (Rep 1 None isLower)" using w by (cases l1) auto
  have f: "l1 @ ws @ [u2] @ l2 \<in> lang (Seq (Rep 1 None isLower) (Seq (Rep 1 None isSpace) (Seq (Cls isUpper) (Rep 1 None isLower))))"
    using d e unfolding lang.simps(3) [of "Rep 1 None isLower"] by blast
  have g: "[u1] \<in> lang (Cls isUpper)" using w(2) by simp
  have "[u1] @ l1 @ ws @ [u2] @ l2 \<in> lang nameRe"
    unfolding nameRe_def lang.simps(5) lang.simps(3) [of "Cls isUpper"] using f g by blast
  then show "w \<in> lang nameRe" using w(1) by simp
qed

lemma match_nameRe:
  assumes "match nameRe l = Some nm"
  shows "twoWordName (nm ! 1)"
proof -
  from match_Some_lang [OF assms] obtain w caps where w: "w \<in> lang nameRe" "nm = w # caps"
    by blast
  from assms match_Grp [of _ l nm] obtain w' caps' where "nm = w' # w' # caps'"
    unfolding nameRe_def by blast
  with w have "nm ! 1 = w" by simp
  with w(1) show ?thesis by (simp add: nameRe_lang)
qed

lemma athleteData_shape:
  "athleteData wc l = Some d \<Longrightarrow>
     twoWordName (name d) \<and> weightClass d = wc \<and> takedowns d = Some 0 \<and> pins d \<noteq> None"
  by (auto simp: athleteData_def Let_def split: option.splits dest: match_nameRe)

lemma scanLine_shape:
  "list_all primaryShape as \<Longrightarrow> list_all primaryShape (scanLine wc as l)"
  using set_pushUnique athleteData_shape
  by (fastforce simp: scanLine_def list_all_iff primaryShape_def split: option.splits)

lemma primaryPass_shape:
  "primaryPass lines = Inr as \<Longrightarrow> list_all primaryShape as"
  by (rule primaryPass_invariant [where P = "list_all primaryShape"])
     (simp_all add: scanLine_shape)

lemma fallbackPass_shape:
  "list_all fallbackShape as \<Longrightarrow> list_all fallbackShape (fallbackPass lines as)"
proof (induction lines arbitrary: as)
  case Nil
  then show ?case by simp
next
  case (Cons l lines)
  show ?case
  proof (cases "match nameRe l")
    case None
    then show ?thesis using Cons by simp
  next
    case (Some nm)
    show ?thesis
    proof (cases "match numberRe l")
      case None
      then show ?thesis using Cons Some by simp
    next
      case (Some wm)
      have "fallbackShape \<lparr> name = nm ! 1, weightClass = wm ! 1 @ js '' lbs'',
            placement = None, wins = None, losses = None, pins = None, takedowns = None \<rparr>"
        using match_nameRe [OF \<open>match nameRe l = Some nm\<close>]
        by (simp add: fallbackShape_def minimal_def)
      then show ?thesis
        using Cons \<open>match nameRe l = Some nm\<close> Some by simp
    qed
  qed
qed

section \<open>The result of parsePDF\<close>

lemma extract_text_eq:
  assumes "primaryPass (textLines text) = Inr p"
  shows "extract_text now text = Inr \<lparr>
           athletes = (if p = [] then fallbackPass (textLines text) [] else p),
           competitionName = (case textLines text of [] \<Rightarrow> js ''Wrestling Competition''
             | l # _ \<Rightarrow> if trim l = [] then js ''Wrestling Competition'' else trim l),
           date = (if findDate (take 10 (textLines text)) = []
             then takeWhile (\<lambda>c. c \<noteq> cu CHR ''T'') now
             else findDate (take 10 (textLines text))),
           results = textLines text \<rparr>"
  unfolding extract_text_def Let_def assms by (cases "textLines text") auto

lemma extract_text_Inr: "\<exists>r. extract_text now text = Inr r"
  using primaryPass_Inr [of "textLines text"] extract_text_eq by blast

lemma extract_text_primary:
  assumes "extract_text now text = Inr r"
  shows "\<exists>p. primaryPass (textLines text) = Inr p \<and>
           athletes r = (if p = [] then fallbackPass (textLines text) [] else p)"
proof -
  obtain p where p: "primaryPass (textLines text) = Inr p"
    using primaryPass_Inr by blast
  from extract_text_eq [OF p, of now] assms p show ?thesis by auto
qed

lemma extract_duals: "extract_text exampleNow dualsText = Inr dualsResult"
  by code_simp
lemma extract_sheet: "extract_text exampleNow sheetText = Inr sheetResult"
  by code_simp
lemma extract_twice: "extract_text exampleNow twiceText = Inr twiceResult"
  by code_simp
lemma extract_header: "extract_text exampleNow headerText = Inr headerResult"
  by code_simp
lemma primary_duals: "primaryPass (textLines dualsText) = Inr [dualsAthlete]"
  by code_simp
lemma primary_sheet: "primaryPass (textLines sheetText) = Inr []"
  by code_simp
lemma primary_header: "primaryPass (textLines headerText) = Inr []"
  by code_simp

text \<open>
  C10. The name of every athlete of the result, from either pass, is two words: an
  upper-case ASCII letter and one or more lower-case ASCII letters, white space, and
  again an upper-case letter and one or more lower-case letters.
\<close>

theorem name_two_words:
  assumes "extract_text now text = Inr r" "a \<in> set (athletes r)"
  shows "twoWordName (name a)"
proof -
  from extract_text_primary [OF assms(1)] obtain p where
    p: "primaryPass (textLines text) = Inr p"
       "athletes r = (if p = [] then fallbackPass (textLines text) [] else p)" by blast
  show ?thesis
  proof (cases "p = []")
    case True
    have "list_all fallbackShape (fallbackPass (textLines text) [])"
      by (rule fallbackPass_shape) simp
    with True p(2) assms(2) show ?thesis
      by (simp add: list_all_iff fallbackShape_def)
  next
    case False
    with primaryPass_shape [OF p(1)] p(2) assms(2) show ?thesis
      by (simp add: list_all_iff primaryShape_def)
  qed
qed

theorem name_two_words_witness:
  "extract_text exampleNow dualsText = Inr dualsResult \<and> dualsAthlete \<in> set (athletes dualsResult) \<and>
   twoWordName (js ''John Smith'')"
proof -
  have a: "dualsAthlete \<in> set (athletes dualsResult)" by (simp add: dualsResult_def)
  have "name dualsAthlete = js ''John Smith''" by (simp add: dualsAthlete_def)
  with name_two_words [OF extract_duals a] extract_duals a show ?thesis by simp
qed


lemma parsePDF_text: "parsePDF (Inr text) now = extract_text now text"
  using extract_text_Inr [of now "text"] by (auto simp: parsePDF_def)

text \<open>
  C2. On every text, \<open>parsePDF\<close> returns a result and throws nothing. When the text
  has no non-blank line, the result has no athletes and no lines, the competition name
  \<open>Wrestling Competition\<close> and the current date. When reading or converting the
  document fails, \<open>parsePDF\<close> throws an error that carries the message of the failure,
  and this is the only way it throws.
\<close>

theorem extraction_never_raises:
  "(\<exists>r. parsePDF (Inr text) now = Inr r) \<and>
   (textLines text = [] \<longrightarrow> parsePDF (Inr text) now = Inr \<lparr> athletes = [],
      competitionName = js ''Wrestling Competition'',
      date = takeWhile (\<lambda>c. c \<noteq> cu CHR ''T'') now, results = [] \<rparr>) \<and>
   parsePDF (Inl e) now = Inl (Failed (js ''Failed to parse PDF file: '' @ message e)) \<and>
   ((\<exists>x. parsePDF doc now = Inl x) \<longleftrightarrow> (\<exists>e. doc = Inl e))"
proof (intro conjI impI)
  show "\<exists>r. parsePDF (Inr text) now = Inr r"
    using extract_text_Inr by (simp add: parsePDF_text)
  show "parsePDF (Inl e) now = Inl (Failed (js ''Failed to parse PDF file: '' @ message e))"
    by (simp add: parsePDF_def)
  show "(\<exists>x. parsePDF doc now = Inl x) \<longleftrightarrow> (\<exists>e. doc = Inl e)"
  proof (cases doc)
    case (Inl e)
    then show ?thesis by (simp add: parsePDF_def)
  next
    case (Inr t)
    then show ?thesis using extract_text_Inr [of now t] by (auto simp: parsePDF_text)
  qed
next
  assume e: "textLines text = []"
  have "primaryPass (textLines text) = Inr []"
    by (simp add: e primaryPass_def)
  from extract_text_eq [OF this, of now]
  show "parsePDF (Inr text) now = Inr \<lparr> athletes = [],
      competitionName = js ''Wrestling Competition'',
      date = takeWhile (\<lambda>c. c \<noteq> cu CHR ''T'') now, results = [] \<rparr>"
    by (simp add: parsePDF_text e)
qed

lemma textLines_blank: "textLines (js '' '' @ [10]) = []"
  by code_simp

lemma today_exampleNow: "takeWhile (\<lambda>c. c \<noteq> cu CHR ''T'') exampleNow = js ''2024-03-14''"
  by code_simp

theorem extraction_never_raises_witness:
  "textLines (js '' '' @ [10]) = [] \<and>
   parsePDF (Inr (js '' '' @ [10])) exampleNow = Inr \<lparr> athletes = [],
      competitionName = js ''Wrestling Competition'', date = js ''2024-03-14'', results = [] \<rparr> \<and>
   parsePDF (Inl (ReadError (js ''ENOENT''))) exampleNow =
      Inl (Failed (js ''Failed to parse PDF file: '' @ js ''ENOENT''))"
  using extraction_never_raises [of "js '' '' @ [10]" exampleNow "ReadError (js ''ENOENT'')" "Inl TypeError"]
  by (simp only: textLines_blank today_exampleNow message.simps simp_thms)

text \<open>
  C4, as stated, fails: on the empty text the results of two calls at times with
  different dates differ.
\<close>

theorem date_depends_on_clock_counterexample:
  "extract_text exampleNow [] \<noteq> extract_text laterNow []"
  by code_simp

text \<open>
  C4, amended. Two calls on the same text yield the same athletes, competition name and
  lines; the whole results are equal when one of the first ten lines contains a date, or
  when the two calls see the same current date.
\<close>

theorem same_text_same_result_but_date:
  assumes "extract_text now1 text = Inr r1" "extract_text now2 text = Inr r2"
  shows "athletes r1 = athletes r2 \<and> competitionName r1 = competitionName r2 \<and>
         results r1 = results r2 \<and>
         ((\<exists>l\<in>set (take 10 (textLines text)). containsDate l) \<or>
           takeWhile (\<lambda>c. c \<noteq> cu CHR ''T'') now1 = takeWhile (\<lambda>c. c \<noteq> cu CHR ''T'') now2
           \<longrightarrow> r1 = r2)"
proof -
  obtain p where p: "primaryPass (textLines text) = Inr p"
    using primaryPass_Inr by blast
  note e1 = extract_text_eq [OF p, of now1] and e2 = extract_text_eq [OF p, of now2]
  show ?thesis
    using assms unfolding e1 e2
    by (auto simp: findDate_nonempty_iff [symmetric])
qed

lemma findDate_dated: "findDate (take 10 (textLines datedText)) = js ''3/14/2024''"
  by code_simp

lemma js_nonempty: "js (c # cs) \<noteq> []"
  by (simp add: js_def)

theorem same_text_same_result_but_date_witness:
  "(\<exists>l\<in>set (take 10 (textLines datedText)). containsDate l) \<and>
   extract_text exampleNow datedText = extract_text laterNow datedText \<and>
   date (projr (extract_text laterNow datedText)) = js ''3/14/2024''"
proof -
  have c: "\<exists>l\<in>set (take 10 (textLines datedText)). containsDate l"
    unfolding findDate_nonempty_iff [symmetric] findDate_dated by (rule js_nonempty)
  obtain r1 where r1: "extract_text exampleNow datedText = Inr r1"
    using extract_text_Inr by blast
  obtain r2 where r2: "extract_text laterNow datedText = Inr r2"
    using extract_text_Inr by blast
  have "r1 = r2"
    using same_text_same_result_but_date [OF r1 r2] c by blast
  moreover have "date (projr (extract_text laterNow datedText)) = js ''3/14/2024''"
    by code_simp
  ultimately show ?thesis using c r1 r2 by simp
qed

text \<open>
  C9, as stated, fails: the athlete that the fallback pass builds on the text of
  \<open>Tournament Sheet\<close> and \<open>John Smith 152\<close> has no takedowns field.
\<close>

theorem takedowns_absent_counterexample:
  "extract_text exampleNow sheetText = Inr sheetResult \<and>
   sheetAthlete \<in> set (athletes sheetResult) \<and> takedowns sheetAthlete \<noteq> Some 0"
  using extract_sheet by (simp add: sheetResult_def sheetAthlete_def)

text \<open>
  C9, amended. In every athlete of the result the takedowns field is 0 when the primary
  pass found an athlete, and absent when the athletes come from the fallback pass; it
  never has another value.
\<close>

theorem takedowns_zero_or_absent:
  assumes "extract_text now text = Inr r" "a \<in> set (athletes r)"
    "primaryPass (textLines text) = Inr p"
  shows "takedowns a = (if p = [] then None else Some 0)"
proof -
  from extract_text_eq [OF assms(3), of now] assms(1)
  have ath: "athletes r = (if p = [] then fallbackPass (textLines text) [] else p)" by auto
  show ?thesis
  proof (cases "p = []")
    case True
    have "list_all fallbackShape (fallbackPass (textLines text) [])"
      by (rule fallbackPass_shape) simp
    with True ath assms(2) show ?thesis
      by (simp add: list_all_iff fallbackShape_def minimal_def)
  next
    case False
    with primaryPass_shape [OF assms(3)] ath assms(2) show ?thesis
      by (simp add: list_all_iff primaryShape_def)
  qed
qed

theorem takedowns_zero_or_absent_witness:
  "extract_text exampleNow dualsText = Inr dualsResult \<and>
   dualsAthlete \<in> set (athletes dualsResult) \<and>
   primaryPass (textLines dualsText) = Inr [dualsAthlete] \<and>
   takedowns dualsAthlete = Some 0"
proof -
  have a: "dualsAthlete \<in> set (athletes dualsResult)" by (simp add: dualsResult_def)
  from takedowns_zero_or_absent [OF extract_duals a primary_duals] extract_duals a primary_duals
  show ?thesis by simp
qed

text \<open>
  C1. The fallback pass pushes without looking for an existing entry: on the text of
  \<open>Roster\<close>, \<open>John Smith 152\<close>, \<open>John Smith 152\<close> the result has the same name and
  weight class twice.
\<close>

theorem fallback_keeps_duplicates:
  "extract_text exampleNow twiceText = Inr twiceResult \<and>
   \<not> distinct (map key (athletes twiceResult))"
  using extract_twice by (simp add: twiceResult_def)

text \<open>
  C3, as stated, fails in one direction: on \<open>Just some unrelated header text\<close> the
  primary pass yields no record and the fallback pass adds none either.
\<close>

theorem fallback_may_add_nothing_counterexample:
  "primaryPass (textLines headerText) = Inr [] \<and>
   extract_text exampleNow headerText = Inr headerResult \<and> athletes headerResult = []"
  using primary_header extract_header by (simp add: headerResult_def)

text \<open>
  C3, amended. The athletes of the result are the records of the primary pass, followed
  by the records of the fallback pass exactly when the primary pass yielded none. When
  the primary pass yields a record, no athlete of the result is a minimal record, as the
  fallback pass builds them.
\<close>

theorem fallback_only_after_empty_primary:
  assumes "extract_text now text = Inr r" "primaryPass (textLines text) = Inr p"
  shows "athletes r = p @ (if p = [] then fallbackPass (textLines text) [] else []) \<and>
         (p \<noteq> [] \<longrightarrow> (\<forall>a\<in>set (athletes r). \<not> minimal a)) \<and>
         list_all minimal (fallbackPass (textLines text) [])"
proof -
  from extract_text_eq [OF assms(2), of now] assms(1)
  have ath: "athletes r = (if p = [] then fallbackPass (textLines text) [] else p)" by auto
  have "list_all fallbackShape (fallbackPass (textLines text) [])"
    by (rule fallbackPass_shape) simp
  then have m: "list_all minimal (fallbackPass (textLines text) [])"
    by (simp add: list_all_iff fallbackShape_def)
  have "\<forall>a\<in>set p. \<not> minimal a"
    using primaryPass_shape [OF assms(2)] by (simp add: list_all_iff primaryShape_def minimal_def)
  with ath m show ?thesis by simp
qed

lemma fallback_sheet: "fallbackPass (textLines sheetText) [] = [sheetAthlete]"
  by code_simp

theorem fallback_only_after_empty_primary_witness:
  "extract_text exampleNow dualsText = Inr dualsResult \<and>
   primaryPass (textLines dualsText) = Inr [dualsAthlete] \<and>
   athletes dualsResult = [dualsAthlete] \<and> \<not> minimal dualsAthlete \<and>
   extract_text exampleNow sheetText = Inr sheetResult \<and>
   primaryPass (textLines sheetText) = Inr [] \<and>
   athletes sheetResult = [sheetAthlete] \<and> minimal sheetAthlete"
  using fallback_only_after_empty_primary [OF extract_duals primary_duals]
    fallback_only_after_empty_primary [OF extract_sheet primary_sheet]
    extract_duals primary_duals extract_sheet primary_sheet
  by (simp add: fallback_sheet)

section \<open>The date and the window\<close>

lemma isoDate_no_T:
  assumes "isoDate d"
  shows "takeWhile (\<lambda>c. c \<noteq> cu CHR ''T'') (d @ cu CHR ''T'' # rest) = d"
proof -
  have "\<not> isDigit (cu CHR ''T'')" "cu CHR ''-'' \<noteq> cu CHR ''T''"
    by (simp_all add: isDigit_def cu_def)
  then have "\<forall>c\<in>set d. c \<noteq> cu CHR ''T''"
    using assms by (auto simp: isoDate_def list_all_iff)
  then show ?thesis by (simp add: takeWhile_append2)
qed

lemma date_found:
  assumes "extract_text now text = Inr r" "\<exists>l\<in>set (take 10 (textLines text)). containsDate l"
  shows "\<exists>before l after pre post. take 10 (textLines text) = before @ l # after \<and>
              (\<forall>b\<in>set before. \<not> containsDate b) \<and> l = pre @ date r @ post \<and>
              numericDate (date r) \<and>
              (\<forall>pre' w' post'. l = pre' @ w' @ post' \<longrightarrow> numericDate w' \<longrightarrow>
                 length pre \<le> length pre' \<and>
                 (length pre' = length pre \<longrightarrow> length w' \<le> length (date r)))"
proof -
  obtain p where p: "primaryPass (textLines text) = Inr p"
    using primaryPass_Inr by blast
  let ?ls = "take 10 (textLines text)"
  from extract_text_eq [OF p, of now] assms(1)
  have d: "date r = (if findDate ?ls = [] then takeWhile (\<lambda>c. c \<noteq> cu CHR ''T'') now else findDate ?ls)"
    by auto
  from assms(2) have ne: "findDate ?ls \<noteq> []" by (simp add: findDate_nonempty_iff)
  from findDate_first [OF assms(2)] obtain before l after m where f:
    "?ls = before @ l # after" "\<forall>b\<in>set before. \<not> containsDate b"
    "match dateRe l = Some m" "findDate ?ls = m ! 0" by blast
  from d ne f(4) have dr: "date r = m ! 0" by simp
  from match_dateRe_Some [OF f(3)] obtain pre post where m:
    "l = pre @ m ! 0 @ post" "numericDate (m ! 0)"
    "\<forall>pre' w' post'. l = pre' @ w' @ post' \<longrightarrow> numericDate w' \<longrightarrow>
            length pre \<le> length pre' \<and>
            (length pre' = length pre \<longrightarrow> length w' \<le> length (m ! 0))" by blast
  show ?thesis
    unfolding dr
    by (rule exI [of _ before], rule exI [of _ l], rule exI [of _ after], rule exI [of _ pre],
        rule exI [of _ post]) (intro conjI f(1) f(2) m(1) m(2) m(3))
qed

lemma date_default:
  assumes "extract_text now text = Inr r"
    "\<not> (\<exists>l\<in>set (take 10 (textLines text)). containsDate l)"
  shows "date r = takeWhile (\<lambda>c. c \<noteq> cu CHR ''T'') now \<and>
         (\<forall>d rest. now = d @ cu CHR ''T'' # rest \<longrightarrow> isoDate d \<longrightarrow> date r = d)"
proof -
  obtain p where p: "primaryPass (textLines text) = Inr p"
    using primaryPass_Inr by blast
  let ?ls = "take 10 (textLines text)"
  from extract_text_eq [OF p, of now] assms(1)
  have d: "date r = (if findDate ?ls = [] then takeWhile (\<lambda>c. c \<noteq> cu CHR ''T'') now else findDate ?ls)"
    by auto
  from assms(2) have "findDate ?ls = []" using findDate_nonempty_iff by blast
  with d have "date r = takeWhile (\<lambda>c. c \<noteq> cu CHR ''T'') now" by simp
  then show ?thesis by (simp add: isoDate_no_T)
qed

text \<open>
  C6. When one of the first ten non-blank lines contains a numeric date, the date of the
  result is such a date, verbatim, in the first of these lines that contains one: no
  date of that line starts further left, and none that starts at the same place is
  longer. When none of the first ten lines contains a numeric date, the date of the
  result is the part of the current ISO date and time before its \<open>T\<close>, that is, the
  current date as \<open>YYYY-MM-DD\<close>. On \<open>Regional Duals 3/14/2024\<close> the date is
  \<open>3/14/2024\<close>.
\<close>

theorem date_first_match_or_today:
  assumes "extract_text now text = Inr r"
  shows "((\<exists>l\<in>set (take 10 (textLines text)). containsDate l) \<longrightarrow>
           (\<exists>before l after pre post. take 10 (textLines text) = before @ l # after \<and>
              (\<forall>b\<in>set before. \<not> containsDate b) \<and> l = pre @ date r @ post \<and>
              numericDate (date r) \<and>
              (\<forall>pre' w' post'. l = pre' @ w' @ post' \<longrightarrow> numericDate w' \<longrightarrow>
                 length pre \<le> length pre' \<and>
                 (length pre' = length pre \<longrightarrow> length w' \<le> length (date r))))) \<and>
         (\<not> (\<exists>l\<in>set (take 10 (textLines text)). containsDate l) \<longrightarrow>
            date r = takeWhile (\<lambda>c. c \<noteq> cu CHR ''T'') now \<and>
            (\<forall>d rest. now = d @ cu CHR ''T'' # rest \<longrightarrow> isoDate d \<longrightarrow> date r = d))"
proof (rule conjI; rule impI)
  assume "\<exists>l\<in>set (take 10 (textLines text)). containsDate l"
  then show "\<exists>before l after pre post. take 10 (textLines text) = before @ l # after \<and>
              (\<forall>b\<in>set before. \<not> containsDate b) \<and> l = pre @ date r @ post \<and>
              numericDate (date r) \<and>
              (\<forall>pre' w' post'. l = pre' @ w' @ post' \<longrightarrow> numericDate w' \<longrightarrow>
                 length pre \<le> length pre' \<and>
                 (length pre' = length pre \<longrightarrow> length w' \<le> length (date r)))"
    by (rule date_found [OF assms])
next
  assume "\<not> (\<exists>l\<in>set (take 10 (textLines text)). containsDate l)"
  then show "date r = takeWhile (\<lambda>c. c \<noteq> cu CHR ''T'') now \<and>
            (\<forall>d rest. now = d @ cu CHR ''T'' # rest \<longrightarrow> isoDate d \<longrightarrow> date r = d)"
    by (rule date_default [OF assms])
qed

lemma extract_dated: "extract_text exampleNow datedText = Inr datedResult"
  by code_simp

lemma exampleNow_split: "exampleNow = js ''2024-03-14'' @ cu CHR ''T'' # js ''09:30:00.000Z''"
  by code_simp

lemma isoDate_example: "isoDate (js ''2024-03-14'')"
  unfolding isoDate_def
  by (intro exI [of _ "js ''2024''"] exI [of _ "js ''03''"] exI [of _ "js ''14''"])
     (simp add: js_def cu_def isDigit_def)

lemma findDate_header: "findDate (take 10 (textLines headerText)) = []"
  by code_simp

theorem date_first_match_or_today_witness:
  "(\<exists>l\<in>set (take 10 (textLines datedText)). containsDate l) \<and>
   extract_text exampleNow datedText = Inr datedResult \<and>
   date datedResult = js ''3/14/2024'' \<and> numericDate (js ''3/14/2024'') \<and>
   \<not> (\<exists>l\<in>set (take 10 (textLines headerText)). containsDate l) \<and>
   extract_text exampleNow headerText = Inr headerResult \<and>
   isoDate (js ''2024-03-14'') \<and> date headerResult = js ''2024-03-14''"
proof -
  have c: "\<exists>l\<in>set (take 10 (textLines datedText)). containsDate l"
    unfolding findDate_nonempty_iff [symmetric] findDate_dated by (rule js_nonempty)
  have n: "\<not> (\<exists>l\<in>set (take 10 (textLines headerText)). containsDate l)"
    unfolding findDate_nonempty_iff [symmetric] findDate_header by simp
  have d: "date datedResult = js ''3/14/2024''" by (simp add: datedResult_def)
  note t1 = date_first_match_or_today [OF extract_dated]
  from t1 [THEN conjunct1, rule_format, OF c]
  have 1: "numericDate (js ''3/14/2024'')" unfolding d by blast
  note t2 = date_first_match_or_today [OF extract_header]
  from t2 [THEN conjunct2, rule_format, OF n]
  have "\<forall>d rest. exampleNow = d @ cu CHR ''T'' # rest \<longrightarrow> isoDate d \<longrightarrow> date headerResult = d"
    by (rule conjunct2)
  with exampleNow_split isoDate_example
  have 2: "date headerResult = js ''2024-03-14''" by blast
  show ?thesis
    by (intro conjI c extract_dated d 1 n extract_header isoDate_example 2)
qed


text \<open>
  C5, amended. At a line of the input, the primary pass opens a window if and only if the
  line contains two digits, any white space and \<open>lb\<close> in either case; the weight class
  is then a number of two or three digits, and the window is the nine lines that follow
  the marker (fewer at the end of the input). No other line is read for that marker.
\<close>

theorem window_of_a_marker:
  assumes "i < length lines"
  shows "(weightMarker (lines ! i) \<longrightarrow>
            (\<exists>d. list_all isDigit d \<and> 2 \<le> length d \<and> length d \<le> 3 \<and>
               scanAt lines i as =
                 Inr (foldl (scanLine (d @ js '' lbs'')) as (take 9 (drop (Suc i) lines))))) \<and>
         (\<not> weightMarker (lines ! i) \<longrightarrow> scanAt lines i as = Inr as)"
proof (rule conjI; rule impI)
  assume "weightMarker (lines ! i)"
  then obtain m where m: "match weightRe (lines ! i) = Some m"
    using match_weightRe_iff [of "lines ! i"] by auto
  have "scanAt lines i as =
      Inr (foldl (scanLine (m ! 1 @ js '' lbs'')) as (take 9 (drop (Suc i) lines)))"
    by (simp add: scanAt_Inr [OF assms] m)
  with match_weightRe_group [OF m]
  show "\<exists>d. list_all isDigit d \<and> 2 \<le> length d \<and> length d \<le> 3 \<and>
               scanAt lines i as =
                 Inr (foldl (scanLine (d @ js '' lbs'')) as (take 9 (drop (Suc i) lines)))"
    by blast
next
  assume "\<not> weightMarker (lines ! i)"
  then have "match weightRe (lines ! i) = None"
    using match_weightRe_iff [of "lines ! i"] by auto
  then show "scanAt lines i as = Inr as"
    by (simp add: scanAt_Inr [OF assms])
qed

lemma match_weight_near: "match weightRe (nearLines ! 0) = Some [js ''152 lbs'', js ''152'']"
  by code_simp

lemma scanAt_near: "scanAt nearLines 0 [] = Inr [plainAthlete]"
  by code_simp

lemma length_near: "0 < length nearLines"
  by (simp add: nearLines_def)

theorem window_of_a_marker_witness:
  "0 < length nearLines \<and> weightMarker (nearLines ! 0) \<and>
   scanAt nearLines 0 [] = Inr [plainAthlete] \<and>
   (\<exists>d. list_all isDigit d \<and> 2 \<le> length d \<and> length d \<le> 3 \<and>
      (Inr [plainAthlete] :: error + athlete list) = Inr (foldl (scanLine (d @ js '' lbs'')) [] (take 9 (drop (Suc 0) nearLines))))"
proof -
  have w: "weightMarker (nearLines ! 0)"
    unfolding match_weightRe_iff [symmetric] match_weight_near by simp
  from window_of_a_marker [OF length_near, of "[]", THEN conjunct1, rule_format, OF w]
  have "\<exists>d. list_all isDigit d \<and> 2 \<le> length d \<and> length d \<le> 3 \<and>
      (Inr [plainAthlete] :: error + athlete list) = Inr (foldl (scanLine (d @ js '' lbs'')) [] (take 9 (drop (Suc 0) nearLines)))"
    unfolding scanAt_near .
  with length_near w scanAt_near show ?thesis by (intro conjI)
qed

text \<open>
  C5, as stated, fails: a line with a number and no \<open>lb\<close>, or with one digit only,
  opens no window, and a name on the tenth line after the marker is not read.
\<close>

theorem window_of_a_marker_counterexample:
  "match specMarkerRe (js ''152'') \<noteq> None \<and>
   scanAt [js ''152'', js ''John Smith''] 0 [] = Inr [] \<and>
   match specMarkerRe (js ''5 lbs'') \<noteq> None \<and>
   scanAt [js ''5 lbs'', js ''John Smith''] 0 [] = Inr [] \<and>
   farLines ! 10 = js ''John Smith'' \<and> scanAt farLines 0 [] = Inr [] \<and>
   scanAt [js ''152 lbs'', js ''John Smith''] 0 [] = Inr [plainAthlete]"
  by code_simp

section \<open>The two scenarios\<close>

lemma primaryPass_duals:
  "primaryPass [js ''Regional Duals'', js ''152 lbs'', js ''John Smith 5-2 1st pin''] =
     Inr [\<lparr> name = js ''John Smith'', weightClass = js ''152 lbs'', placement = Some 1,
            wins = Some 5, losses = Some 2, pins = Some 1, takedowns = Some 0 \<rparr>]"
  by code_simp

lemma findDate_duals:
  "findDate (take 10 [js ''Regional Duals'', js ''152 lbs'', js ''John Smith 5-2 1st pin'']) = []"
  by code_simp

lemma trim_duals: "trim (js ''Regional Duals'') = js ''Regional Duals''"
  by code_simp

lemma textLines_duals:
  "textLines (js ''Regional Duals'' @ [10] @ js ''152 lbs'' @ [10, 10] @ js ''John Smith 5-2 1st pin'')
     = [js ''Regional Duals'', js ''152 lbs'', js ''John Smith 5-2 1st pin'']"
  by code_simp

lemma today_example:
  "takeWhile (\<lambda>c. c \<noteq> cu CHR ''T'') (js ''2024-03-14T09:30:00.000Z'') = js ''2024-03-14''"
  by code_simp

text \<open>
  C7. On a text whose non-empty lines are \<open>Regional Duals\<close>, \<open>152 lbs\<close>,
  \<open>John Smith 5-2 1st pin\<close>, the result has exactly one athlete, John Smith at 152 lbs
  with placement 1, 5 wins, 2 losses, 1 pin (and 0 takedowns), and the competition name
  is \<open>Regional Duals\<close>.
\<close>

theorem scenario_primary_pass:
  assumes "textLines text = [js ''Regional Duals'', js ''152 lbs'', js ''John Smith 5-2 1st pin'']"
  shows "extract_text now text = Inr \<lparr>
           athletes = [\<lparr> name = js ''John Smith'', weightClass = js ''152 lbs'',
                         placement = Some 1, wins = Some 5, losses = Some 2, pins = Some 1,
                         takedowns = Some 0 \<rparr>],
           competitionName = js ''Regional Duals'',
           date = takeWhile (\<lambda>c. c \<noteq> cu CHR ''T'') now,
           results = [js ''Regional Duals'', js ''152 lbs'', js ''John Smith 5-2 1st pin''] \<rparr>"
  unfolding extract_text_def Let_def assms
  by (simp only: primaryPass_duals findDate_duals trim_duals list.case sum.case) (simp add: js_def)

theorem scenario_primary_pass_witness:
  "textLines (js ''Regional Duals'' @ [10] @ js ''152 lbs'' @ [10, 10] @ js ''John Smith 5-2 1st pin'')
     = [js ''Regional Duals'', js ''152 lbs'', js ''John Smith 5-2 1st pin''] \<and>
   extract_text (js ''2024-03-14T09:30:00.000Z'')
     (js ''Regional Duals'' @ [10] @ js ''152 lbs'' @ [10, 10] @ js ''John Smith 5-2 1st pin'')
     = Inr \<lparr>
           athletes = [\<lparr> name = js ''John Smith'', weightClass = js ''152 lbs'',
                         placement = Some 1, wins = Some 5, losses = Some 2, pins = Some 1,
                         takedowns = Some 0 \<rparr>],
           competitionName = js ''Regional Duals'',
           date = js ''2024-03-14'',
           results = [js ''Regional Duals'', js ''152 lbs'', js ''John Smith 5-2 1st pin''] \<rparr>"
  using scenario_primary_pass [OF textLines_duals, of "js ''2024-03-14T09:30:00.000Z''"]
  by (simp only: today_example textLines_duals simp_thms)

lemma primaryPass_sheet:
  "primaryPass [js ''Tournament Sheet'', js ''John Smith 152''] = Inr []"
  by code_simp

lemma fallbackPass_sheet:
  "fallbackPass [js ''Tournament Sheet'', js ''John Smith 152''] [] =
     [\<lparr> name = js ''John Smith'', weightClass = js ''152 lbs'', placement = None,
        wins = None, losses = None, pins = None, takedowns = None \<rparr>]"
  by code_simp

lemma findDate_sheet:
  "findDate (take 10 [js ''Tournament Sheet'', js ''John Smith 152'']) = []"
  by code_simp

lemma trim_sheet: "trim (js ''Tournament Sheet'') = js ''Tournament Sheet''"
  by code_simp

lemma textLines_sheet:
  "textLines (js ''Tournament Sheet'' @ [10] @ js ''John Smith 152'' @ [10])
     = [js ''Tournament Sheet'', js ''John Smith 152'']"
  by code_simp

text \<open>
  C8. On a text whose non-empty lines are \<open>Tournament Sheet\<close> and \<open>John Smith 152\<close>, the
  primary pass finds nothing and the result has exactly one athlete, John Smith at
  152 lbs, from the fallback pass, with placement, wins, losses and pins absent.
\<close>

theorem scenario_fallback_pass:
  assumes "textLines text = [js ''Tournament Sheet'', js ''John Smith 152'']"
  shows "primaryPass (textLines text) = Inr [] \<and>
         extract_text now text = Inr \<lparr>
           athletes = [\<lparr> name = js ''John Smith'', weightClass = js ''152 lbs'',
                         placement = None, wins = None, losses = None, pins = None,
                         takedowns = None \<rparr>],
           competitionName = js ''Tournament Sheet'',
           date = takeWhile (\<lambda>c. c \<noteq> cu CHR ''T'') now,
           results = [js ''Tournament Sheet'', js ''John Smith 152''] \<rparr>"
  unfolding extract_text_def Let_def assms
  by (simp only: primaryPass_sheet fallbackPass_sheet findDate_sheet trim_sheet list.case sum.case)
     (simp add: js_def)

theorem scenario_fallback_pass_witness:
  "textLines (js ''Tournament Sheet'' @ [10] @ js ''John Smith 152'' @ [10])
     = [js ''Tournament Sheet'', js ''John Smith 152''] \<and>
   primaryPass (textLines (js ''Tournament Sheet'' @ [10] @ js ''John Smith 152'' @ [10])) = Inr [] \<and>
   extract_text (js ''2024-03-14T09:30:00.000Z'')
     (js ''Tournament Sheet'' @ [10] @ js ''John Smith 152'' @ [10])
     = Inr \<lparr>
           athletes = [\<lparr> name = js ''John Smith'', weightClass = js ''152 lbs'',
                         placement = None, wins = None, losses = None, pins = None,
                         takedowns = None \<rparr>],
           competitionName = js ''Tournament Sheet'',
           date = js ''2024-03-14'',
           results = [js ''Tournament Sheet'', js ''John Smith 152''] \<rparr>"
  using scenario_fallback_pass [OF textLines_sheet, of "js ''2024-03-14T09:30:00.000Z''"]
  by (simp only: today_example textLines_sheet simp_thms)

end
